theory Spec2Isabelle
  imports Main "HOL-Library.AList" "HOL-Library.Product_Lexorder"
begin

section \<open>Data model (library/models.py, library/services/redistribution.py)\<close>

text \<open>
  Identifiers are Python integers. \<open>capacity\<close> and \<open>quantity\<close> are Django
  \<open>PositiveIntegerField\<close>s (with the check constraint \<open>quantity_non_negative\<close>), hence
  natural numbers; \<open>year\<close> is an \<open>IntegerField\<close>. A table is the list of its rows in
  the order in which a query without \<open>ORDER BY\<close> returns them.
\<close>

record Library =
  lib_id :: int
  capacity :: nat

record Book =
  bk_id :: int
  year :: int
  author_id :: int

record LibraryBook =
  library_id :: int
  book_id :: int
  quantity :: nat

record store =
  libraries :: "Library list"
  books :: "Book list"
  library_books :: "LibraryBook list"

record Move =
  m_book_id :: int
  from_library_id :: int
  to_library_id :: int
  m_quantity :: nat

record Plan =
  moves :: "Move list"
  total_moves :: nat
  books_considered :: nat

datatype error = KeyError | IntegrityError | ValueError

text \<open>
  The three manager classes. \<open>free_capacity\<close> is the dictionary
  \<open>self._free_capacity\<close> (keys in insertion order); \<open>priority\<close> and \<open>author_ids\<close>
  are the attributes of the priority manager.
\<close>

datatype kind = Base | CapacityAware | Priority

record manager =
  kind :: kind
  dry_run :: bool
  free_capacity :: "(int \<times> int) list"
  priority :: string
  author_ids :: "int list"

definition RedistributionManager_init :: "bool \<Rightarrow> manager" where
  "RedistributionManager_init dr =
     \<lparr>kind = Base, dry_run = dr, free_capacity = [], priority = [], author_ids = []\<rparr>"

definition CapacityAwareRedistributionManager_init :: "bool \<Rightarrow> manager" where
  "CapacityAwareRedistributionManager_init dr =
     \<lparr>kind = CapacityAware, dry_run = dr, free_capacity = [], priority = [], author_ids = []\<rparr>"

definition PriorityRedistributionManager_init ::
    "bool \<Rightarrow> string option \<Rightarrow> int list option \<Rightarrow> manager" where
  "PriorityRedistributionManager_init dr prio authors =
     \<lparr>kind = Priority, dry_run = dr, free_capacity = [],
      priority = (case prio of None \<Rightarrow> ''year_desc''
                  | Some p \<Rightarrow> if p = [] then ''year_desc'' else p),
      author_ids = (case authors of None \<Rightarrow> [] | Some a \<Rightarrow> a)\<rparr>"

section \<open>Candidate selection\<close>

text \<open>
  \<open>_candidate_book_ids\<close>: one group per \<open>book_id\<close>; \<open>covered\<close> counts the rows of
  the group with \<open>quantity > 0\<close>, \<open>total\<close> sums the quantities. The query has no
  \<open>ORDER BY\<close>; the groups come in the order of the last row of each book.
\<close>

definition candidate_book_ids :: "store \<Rightarrow> nat \<Rightarrow> int list" where
  "candidate_book_ids d nlibs =
     filter (\<lambda>b. let rows = filter (\<lambda>h. book_id h = b) (library_books d);
                     covered = length (filter (\<lambda>h. quantity h > 0) rows);
                     total = sum_list (map quantity rows)
                 in covered < nlibs \<and> total > 0)
       (remdups (map book_id (library_books d)))"

section \<open>Plan builder, base variant\<close>

definition mk_move :: "int \<Rightarrow> int \<Rightarrow> int \<Rightarrow> Move" where
  "mk_move b src dst =
     \<lparr>m_book_id = b, from_library_id = src, to_library_id = dst, m_quantity = 1\<rparr>"

text \<open>The inner \<open>while\<close> loop of \<open>_build_plan_for_book\<close> for one donor.\<close>

function base_while ::
    "int \<Rightarrow> int \<Rightarrow> nat \<Rightarrow> int list \<Rightarrow> nat \<Rightarrow> Move list \<times> nat \<times> nat
      \<Rightarrow> Move list \<times> nat \<times> nat" where
  "base_while b donor target recipients can_move (ms, ri, covered) =
     (if can_move > 0 \<and> covered < target \<and> ri < length recipients
      then base_while b donor target recipients (can_move - 1)
             (ms @ [mk_move b donor (recipients ! ri)], ri + 1, covered + 1)
      else (ms, ri, covered))"
  by pat_completeness auto
termination
  by (relation "measure (\<lambda>(b, donor, target, recipients, can_move, s). can_move)") auto

declare base_while.simps [simp del]

text \<open>The \<open>for donor in donors\<close> loop with its \<open>break\<close>.\<close>

fun base_for ::
    "int \<Rightarrow> nat \<Rightarrow> int list \<Rightarrow> LibraryBook list \<Rightarrow> Move list \<times> nat \<times> nat
      \<Rightarrow> Move list \<times> nat \<times> nat" where
  "base_for b target recipients [] s = s"
| "base_for b target recipients (donor # donors) s =
     (case base_while b (library_id donor) target recipients (quantity donor - 1) s of
        (ms, ri, covered) \<Rightarrow>
          if covered \<ge> target then (ms, ri, covered)
          else base_for b target recipients donors (ms, ri, covered))"

definition holdings_of :: "store \<Rightarrow> int \<Rightarrow> LibraryBook list" where
  "holdings_of d b = filter (\<lambda>h. book_id h = b) (library_books d)"

definition has_of :: "LibraryBook list \<Rightarrow> int list" where
  "has_of holdings = map library_id (filter (\<lambda>h. quantity h > 0) holdings)"

definition donors_of :: "LibraryBook list \<Rightarrow> LibraryBook list" where
  "donors_of holdings =
     sort_key (\<lambda>x. - int (quantity x)) (filter (\<lambda>h. quantity h > 1) holdings)"

text \<open>
  \<open>sd a b\<close> is the order in which CPython iterates over the set difference
  \<open>set(a) - set(b)\<close> of two sets built from the sequences \<open>a\<close> and \<open>b\<close>. The language
  does not fix that order, so it is a parameter of the model.
\<close>

definition base_build_plan_for_book ::
    "(int list \<Rightarrow> int list \<Rightarrow> int list) \<Rightarrow> store \<Rightarrow> int \<Rightarrow> nat \<Rightarrow> Move list" where
  "base_build_plan_for_book sd d b nlibs =
     (let holdings = holdings_of d b;
          total = sum_list (map quantity holdings)
      in if total = 0 then []
         else
           let target_coverage = min nlibs total;
               has = has_of holdings;
               covered = length (remdups has)
           in if covered \<ge> target_coverage then []
              else
                let donors = donors_of holdings;
                    recipients = sd (map lib_id (libraries d)) has
                in fst (base_for b target_coverage recipients donors ([], 0, covered)))"

section \<open>Plan builder, capacity-aware variant\<close>

definition compute_free_capacity :: "store \<Rightarrow> (int \<times> int) list" where
  "compute_free_capacity d =
     fold (\<lambda>row fc.
             AList.update (lib_id row)
               (int (capacity row)
                 - int (sum_list (map quantity
                     (filter (\<lambda>h. library_id h = lib_id row) (library_books d))))) fc)
       (libraries d) []"

function capacity_while ::
    "int \<Rightarrow> int \<Rightarrow> nat \<Rightarrow> int list \<Rightarrow> nat \<Rightarrow> Move list \<times> nat \<times> nat \<times> (int \<times> int) list
      \<Rightarrow> error + Move list \<times> nat \<times> nat \<times> (int \<times> int) list" where
  "capacity_while b donor target recipients can_move (ms, ri, covered, fc) =
     (if can_move > 0 \<and> covered < target \<and> ri < length recipients
      then (case map_of fc (recipients ! ri) of
              None \<Rightarrow> Inl KeyError
            | Some free \<Rightarrow>
                if free \<le> 0
                then capacity_while b donor target recipients can_move
                       (ms, ri + 1, covered, fc)
                else capacity_while b donor target recipients (can_move - 1)
                       (ms @ [mk_move b donor (recipients ! ri)], ri + 1, covered + 1,
                        AList.update (recipients ! ri) (free - 1) fc))
      else Inr (ms, ri, covered, fc))"
  by pat_completeness auto
termination
  by (relation "measure (\<lambda>(b, donor, target, recipients, can_move, ms, ri, covered, fc).
                           length recipients - ri)") auto

declare capacity_while.simps [simp del]

fun capacity_for ::
    "int \<Rightarrow> nat \<Rightarrow> int list \<Rightarrow> LibraryBook list \<Rightarrow> Move list \<times> nat \<times> nat \<times> (int \<times> int) list
      \<Rightarrow> error + Move list \<times> nat \<times> nat \<times> (int \<times> int) list" where
  "capacity_for b target recipients [] s = Inr s"
| "capacity_for b target recipients (donor # donors) s =
     (case capacity_while b (library_id donor) target recipients (quantity donor - 1) s of
        Inl e \<Rightarrow> Inl e
      | Inr (ms, ri, covered, fc) \<Rightarrow>
          if covered \<ge> target then Inr (ms, ri, covered, fc)
          else capacity_for b target recipients donors (ms, ri, covered, fc))"

definition capacity_build_plan_for_book ::
    "(int list \<Rightarrow> int list \<Rightarrow> int list) \<Rightarrow> manager \<Rightarrow> store \<Rightarrow> int \<Rightarrow> nat
      \<Rightarrow> error + Move list \<times> manager" where
  "capacity_build_plan_for_book sd m d b nlibs =
     (let fc = (if free_capacity m = [] then compute_free_capacity d else free_capacity m);
          m1 = m\<lparr>free_capacity := fc\<rparr>;
          holdings = holdings_of d b;
          total = sum_list (map quantity holdings)
      in if total = 0 then Inr ([], m1)
         else
           let target_coverage = min nlibs total;
               has = has_of holdings;
               covered = length (remdups has)
           in if covered \<ge> target_coverage then Inr ([], m1)
              else
                let donors = donors_of holdings;
                    recipients_all = sd (map fst fc) has;
                    recipients =
                      filter (\<lambda>lid. (case map_of fc lid of None \<Rightarrow> 0 | Some v \<Rightarrow> v) > 0)
                        recipients_all
                in (case capacity_for b target_coverage recipients donors ([], 0, covered, fc) of
                      Inl e \<Rightarrow> Inl e
                    | Inr (ms, ri, covered', fc') \<Rightarrow> Inr (ms, m1\<lparr>free_capacity := fc'\<rparr>)))"

text \<open>Method dispatch: the capacity-aware and the priority manager override the builder.\<close>

definition build_plan_for_book ::
    "(int list \<Rightarrow> int list \<Rightarrow> int list) \<Rightarrow> manager \<Rightarrow> store \<Rightarrow> int \<Rightarrow> nat
      \<Rightarrow> error + Move list \<times> manager" where
  "build_plan_for_book sd m d b nlibs =
     (case kind m of
        Base \<Rightarrow> Inr (base_build_plan_for_book sd d b nlibs, m)
      | _ \<Rightarrow> capacity_build_plan_for_book sd m d b nlibs)"

section \<open>Plan applier\<close>

text \<open>\<open>d[k] = d.get(k, 0) + q\<close> on a dictionary kept in insertion order.\<close>

definition add_qty ::
    "((int \<times> int) \<times> nat) list \<Rightarrow> int \<times> int \<Rightarrow> nat \<Rightarrow> ((int \<times> int) \<times> nat) list" where
  "add_qty dict k q =
     AList.update k ((case map_of dict k of None \<Rightarrow> 0 | Some v \<Rightarrow> v) + q) dict"

fun aggregate ::
    "Move list \<Rightarrow> ((int \<times> int) \<times> nat) list \<times> ((int \<times> int) \<times> nat) list
      \<Rightarrow> ((int \<times> int) \<times> nat) list \<times> ((int \<times> int) \<times> nat) list" where
  "aggregate [] acc = acc"
| "aggregate (m # ms) (inc, dec) =
     aggregate ms
       (add_qty inc (to_library_id m, m_book_id m) (m_quantity m),
        add_qty dec (from_library_id m, m_book_id m) (m_quantity m))"

definition row_key :: "LibraryBook \<Rightarrow> int \<times> int" where
  "row_key r = (library_id r, book_id r)"

text \<open>
  The loop over \<open>inc.items()\<close>: a pair found in \<open>by_key\<close> is updated in the table
  (\<open>quantity = F("quantity") + qty\<close> on the row found), any other pair is queued in
  \<open>to_create\<close>. The pair (library, book) identifies a row (\<open>uniq_library_book\<close>).
\<close>

fun apply_inc ::
    "(int \<times> int \<Rightarrow> LibraryBook option) \<Rightarrow> ((int \<times> int) \<times> nat) list
      \<Rightarrow> LibraryBook list \<times> LibraryBook list \<Rightarrow> LibraryBook list \<times> LibraryBook list" where
  "apply_inc by_key [] s = s"
| "apply_inc by_key ((k, qty) # rest) (tbl, to_create) =
     (case by_key k of
        Some row \<Rightarrow>
          apply_inc by_key rest
            (map (\<lambda>r. if row_key r = row_key row
                       then r\<lparr>quantity := quantity r + qty\<rparr> else r) tbl,
             to_create)
      | None \<Rightarrow>
          apply_inc by_key rest
            (tbl, to_create @ [\<lparr>library_id = fst k, book_id = snd k, quantity = qty\<rparr>]))"

text \<open>\<open>bulk_create(to_create, ignore_conflicts=True)\<close>: a conflicting row is skipped.\<close>

fun bulk_create :: "LibraryBook list \<Rightarrow> LibraryBook list \<Rightarrow> LibraryBook list" where
  "bulk_create [] tbl = tbl"
| "bulk_create (r # rs) tbl =
     (if row_key r \<in> row_key ` set tbl then bulk_create rs tbl
      else bulk_create rs (tbl @ [r]))"

text \<open>
  The loop over \<open>dec.items()\<close>: every row of the pair is updated with
  \<open>quantity - qty\<close>; a negative result violates \<open>quantity_non_negative\<close> and raises.
\<close>

fun apply_dec :: "((int \<times> int) \<times> nat) list \<Rightarrow> LibraryBook list \<Rightarrow> error + LibraryBook list" where
  "apply_dec [] tbl = Inr tbl"
| "apply_dec ((k, qty) # rest) tbl =
     (if \<exists>r \<in> set tbl. row_key r = k \<and> quantity r < qty then Inl IntegrityError
      else apply_dec rest
             (map (\<lambda>r. if row_key r = k then r\<lparr>quantity := quantity r - qty\<rparr> else r) tbl))"

text \<open>
  \<open>_apply_plan\<close> runs in one transaction: an error leaves the store as it was, which
  the model renders by returning the error alone.
\<close>

definition apply_plan :: "Move list \<Rightarrow> store \<Rightarrow> error + store" where
  "apply_plan ms d =
     (case aggregate ms ([], []) of
        (inc, dec) \<Rightarrow>
          let touched = remdups (map fst inc @ map fst dec);
              rows = filter (\<lambda>r. library_id r \<in> set (map fst touched)
                                 \<and> book_id r \<in> set (map snd touched)) (library_books d);
              by_key = map_of (rev (map (\<lambda>r. (row_key r, r)) rows))
          in (case apply_inc by_key inc (library_books d, []) of
                (tbl, to_create) \<Rightarrow>
                  (case apply_dec dec (bulk_create to_create tbl) of
                     Inl e \<Rightarrow> Inl e
                   | Inr tbl' \<Rightarrow> Inr (d\<lparr>library_books := tbl'\<rparr>))))"

section \<open>Orchestrator\<close>

text \<open>The loop over the candidate books, threading the manager's capacity map.\<close>

fun plan_loop ::
    "(int list \<Rightarrow> int list \<Rightarrow> int list) \<Rightarrow> store \<Rightarrow> nat \<Rightarrow> int list
      \<Rightarrow> Move list \<times> nat \<times> manager \<Rightarrow> error + Move list \<times> nat \<times> manager" where
  "plan_loop sd d nlibs [] s = Inr s"
| "plan_loop sd d nlibs (b # bs) (ms, considered, m) =
     (case build_plan_for_book sd m d b nlibs of
        Inl e \<Rightarrow> Inl e
      | Inr (new, m') \<Rightarrow> plan_loop sd d nlibs bs (ms @ new, considered + 1, m'))"

definition finish ::
    "store \<Rightarrow> Move list \<times> nat \<times> manager \<Rightarrow> error + Plan \<times> manager \<times> store" where
  "finish d s =
     (case s of
        (ms, considered, m) \<Rightarrow>
          let plan = \<lparr>moves = ms, total_moves = length ms, books_considered = considered\<rparr>
          in if \<not> dry_run m
             then (case apply_plan ms d of
                     Inl e \<Rightarrow> Inl e
                   | Inr d' \<Rightarrow> Inr (plan, m, d'))
             else Inr (plan, m, d))"

text \<open>\<open>RedistributionManager.rebalance\<close>, inherited by the capacity-aware manager.\<close>

definition base_rebalance ::
    "(int list \<Rightarrow> int list \<Rightarrow> int list) \<Rightarrow> manager \<Rightarrow> store
      \<Rightarrow> error + Plan \<times> manager \<times> store" where
  "base_rebalance sd m d =
     (let nlibs = length (libraries d)
      in (case plan_loop sd d nlibs (candidate_book_ids d nlibs) ([], 0, m) of
            Inl e \<Rightarrow> Inl e
          | Inr s \<Rightarrow> finish d s))"

text \<open>The nested function \<open>sort_key\<close> of \<open>PriorityRedistributionManager.rebalance\<close>.\<close>

definition book_sort_key :: "manager \<Rightarrow> (int \<Rightarrow> Book option) \<Rightarrow> int \<Rightarrow> error + int \<times> int" where
  "book_sort_key m book_meta bid =
     (case book_meta bid of
        None \<Rightarrow> Inl KeyError
      | Some meta \<Rightarrow>
          if priority m = ''author_first'' \<and> author_id meta \<in> set (author_ids m)
          then Inr (0, - year meta)
          else if priority m = ''year_desc'' then Inr (1, - year meta)
          else Inr (2, bk_id meta))"

text \<open>
  The dictionary \<open>book_meta\<close> (a later row replaces an earlier one with the same
  id), and \<open>sorted(base_ids, key=sort_key)\<close>: the key of every element is computed
  first (a missing book raises), then the elements are sorted stably by key.
\<close>

definition book_meta :: "store \<Rightarrow> int list \<Rightarrow> int \<Rightarrow> Book option" where
  "book_meta d base_ids =
     map_of (rev (map (\<lambda>b. (bk_id b, b))
                    (filter (\<lambda>b. bk_id b \<in> set base_ids) (books d))))"

definition ordered_ids :: "manager \<Rightarrow> store \<Rightarrow> int list \<Rightarrow> error + int list" where
  "ordered_ids m d base_ids =
     (let keys = map (book_sort_key m (book_meta d base_ids)) base_ids
      in if \<exists>k \<in> set keys. isl k then Inl KeyError
         else Inr (map snd (sort_key fst (zip (map projr keys) base_ids))))"

definition priority_rebalance ::
    "(int list \<Rightarrow> int list \<Rightarrow> int list) \<Rightarrow> manager \<Rightarrow> store
      \<Rightarrow> error + Plan \<times> manager \<times> store" where
  "priority_rebalance sd m d =
     (let nlibs = length (libraries d);
          base_ids = candidate_book_ids d nlibs
      in (case ordered_ids m d base_ids of
            Inl e \<Rightarrow> Inl e
          | Inr ordered \<Rightarrow>
              (case plan_loop sd d nlibs ordered ([], 0, m) of
                 Inl e \<Rightarrow> Inl e
               | Inr s \<Rightarrow> finish d s)))"

definition rebalance ::
    "(int list \<Rightarrow> int list \<Rightarrow> int list) \<Rightarrow> manager \<Rightarrow> store
      \<Rightarrow> error + Plan \<times> manager \<times> store" where
  "rebalance sd m d =
     (case kind m of
        Priority \<Rightarrow> priority_rebalance sd m d
      | _ \<Rightarrow> base_rebalance sd m d)"

section \<open>The management command (library/management/commands/rebalance.py)\<close>

text \<open>
  A Python string is the list of its code points. What the interpreter knows of a code
  point comes from the Unicode database, which is not part of the repository and is a
  parameter of the model: whether it is white space (\<open>str.isspace\<close>, used by
  \<open>str.strip\<close> and by \<open>int\<close>), whether it is a digit (\<open>str.isdigit\<close>), and its
  decimal value if it has one (\<open>int\<close> accepts only those). \<open>int_max_str_digits\<close> is
  \<open>sys.get_int_max_str_digits()\<close>, 0 where there is no limit.
\<close>

record unicode =
  uni_isspace :: "nat \<Rightarrow> bool"
  uni_isdigit :: "nat \<Rightarrow> bool"
  uni_decimal :: "nat \<Rightarrow> nat option"
  int_max_str_digits :: nat

record opts =
  opt_apply :: bool
  opt_capacity_aware :: bool
  opt_priority :: string
  opt_authors :: "nat list"

text \<open>\<open>s.split(",")\<close>; the comma is code point 44.\<close>

fun split_comma :: "nat list \<Rightarrow> nat list list" where
  "split_comma [] = [[]]"
| "split_comma (c # cs) =
     (if c = 44 then [] # split_comma cs
      else (case split_comma cs of [] \<Rightarrow> [[c]] | x # xs \<Rightarrow> (c # x) # xs))"

definition strip_with :: "(nat \<Rightarrow> bool) \<Rightarrow> nat list \<Rightarrow> nat list" where
  "strip_with sp s = rev (dropWhile sp (rev (dropWhile sp s)))"

definition strip :: "unicode \<Rightarrow> nat list \<Rightarrow> nat list" where
  "strip u s = strip_with (uni_isspace u) s"

definition isdigit :: "unicode \<Rightarrow> nat list \<Rightarrow> bool" where
  "isdigit u s = (s \<noteq> [] \<and> list_all (uni_isdigit u) s)"

text \<open>
  \<open>int(s)\<close>. The string is first brought to ASCII: a code point below 127 stays, any
  other white space becomes a blank, any other decimal digit its ASCII digit, anything
  else a question mark. Then blanks in the ASCII sense (9 to 13 and 32) are skipped at
  both ends, a sign may follow, and the rest must be digits, with single underscores
  between digits only. More digits than the limit allows raise as well.
\<close>

definition to_ascii :: "unicode \<Rightarrow> nat \<Rightarrow> nat" where
  "to_ascii u c =
     (if c < 127 then c
      else if uni_isspace u c then 32
      else (case uni_decimal u c of Some v \<Rightarrow> 48 + v | None \<Rightarrow> 63))"

definition ascii_space :: "nat \<Rightarrow> bool" where
  "ascii_space c = (c \<in> set [9, 10, 11, 12, 13, 32])"

definition ascii_digit :: "nat \<Rightarrow> bool" where
  "ascii_digit c = (48 \<le> c \<and> c \<le> 57)"

fun no_double_underscore :: "nat list \<Rightarrow> bool" where
  "no_double_underscore (a # b # cs) = (\<not> (a = 95 \<and> b = 95) \<and> no_double_underscore (b # cs))"
| "no_double_underscore cs = True"

definition digits_ok :: "nat list \<Rightarrow> bool" where
  "digits_ok body =
     (body \<noteq> [] \<and> ascii_digit (hd body) \<and> ascii_digit (last body)
      \<and> list_all (\<lambda>c. ascii_digit c \<or> c = 95) body \<and> no_double_underscore body)"

definition int_of_str :: "unicode \<Rightarrow> nat list \<Rightarrow> error + int" where
  "int_of_str u s =
     (let t = strip_with ascii_space (map (to_ascii u) s);
          negative = (t \<noteq> [] \<and> hd t = 45);
          body = (if t \<noteq> [] \<and> (hd t = 43 \<or> hd t = 45) then tl t else t)
      in if \<not> digits_ok body then Inl ValueError
         else
           let ds = map (\<lambda>c. c - 48) (filter (\<lambda>c. c \<noteq> 95) body)
           in if 0 < int_max_str_digits u \<and> int_max_str_digits u < length ds
              then Inl ValueError
              else
                let v = foldl (\<lambda>n dgt. 10 * n + int dgt) 0 ds
                in Inr (if negative then - v else v))"

text \<open>
  The list comprehension \<open>[int(x) for x in ... if x.strip().isdigit()]\<close>: the items
  are converted from left to right and the first that \<open>int\<close> rejects raises.
\<close>

fun convert_all :: "unicode \<Rightarrow> nat list list \<Rightarrow> error + int list" where
  "convert_all u [] = Inr []"
| "convert_all u (x # xs) =
     (case int_of_str u x of
        Inl e \<Rightarrow> Inl e
      | Inr v \<Rightarrow> (case convert_all u xs of Inl e \<Rightarrow> Inl e | Inr vs \<Rightarrow> Inr (v # vs)))"

definition parse_authors :: "unicode \<Rightarrow> nat list \<Rightarrow> error + int list" where
  "parse_authors u s = convert_all u (filter (\<lambda>x. isdigit u (strip u x)) (split_comma s))"

text \<open>
  The choice of the manager in \<open>Command.handle\<close>, given \<open>dry_run\<close> and the author
  ids (a non-empty string or list is true).
\<close>

definition select_manager :: "bool \<Rightarrow> opts \<Rightarrow> int list \<Rightarrow> manager" where
  "select_manager dr os authors =
     (if opt_capacity_aware os \<and> (opt_priority os \<noteq> [] \<or> authors \<noteq> [])
      then PriorityRedistributionManager_init dr (Some (opt_priority os)) (Some authors)
      else if opt_capacity_aware os then CapacityAwareRedistributionManager_init dr
      else RedistributionManager_init dr)"

text \<open>
  \<open>Command.handle\<close> up to \<open>plan = mgr.rebalance()\<close>; the report it prints is not
  modelled. The author ids are converted before any manager is built.
\<close>

definition handle ::
    "unicode \<Rightarrow> (int list \<Rightarrow> int list \<Rightarrow> int list) \<Rightarrow> opts \<Rightarrow> store
      \<Rightarrow> error + Plan \<times> manager \<times> store" where
  "handle u sd os d =
     (let dr = \<not> opt_apply os
      in (case parse_authors u (opt_authors os) of
            Inl e \<Rightarrow> Inl e
          | Inr authors \<Rightarrow> rebalance sd (select_manager dr os authors) d))"

text \<open>
  The Unicode database on the code points below 256, with the digit limit of
  Python 3.11; used for examples, whose strings stay below 256.
\<close>

definition latin1 :: unicode where
  "latin1 =
     \<lparr>uni_isspace = (\<lambda>c. c \<in> set [9, 10, 11, 12, 13, 28, 29, 30, 31, 32, 133, 160]),
      uni_isdigit = (\<lambda>c. (48 \<le> c \<and> c \<le> 57) \<or> c \<in> set [178, 179, 185]),
      uni_decimal = (\<lambda>c. if 48 \<le> c \<and> c \<le> 57 then Some (c - 48) else None),
      int_max_str_digits = 4300\<rparr>"

section \<open>Derived aggregates and the constraints of the schema\<close>

definition qty :: "LibraryBook list \<Rightarrow> int \<Rightarrow> int \<Rightarrow> nat" where
  "qty tbl l b =
     sum_list (map quantity (filter (\<lambda>r. library_id r = l \<and> book_id r = b) tbl))"

definition book_total :: "store \<Rightarrow> int \<Rightarrow> nat" where
  "book_total d b = sum_list (map quantity (holdings_of d b))"

definition coverage :: "store \<Rightarrow> int \<Rightarrow> nat" where
  "coverage d b = length (remdups (has_of (holdings_of d b)))"

text \<open>\<open>Library.used_capacity\<close>.\<close>

definition used_capacity :: "store \<Rightarrow> int \<Rightarrow> nat" where
  "used_capacity d l =
     sum_list (map quantity (filter (\<lambda>h. library_id h = l) (library_books d)))"

text \<open>Copies of book \<open>b\<close> that a list of moves brings to, and takes from, library \<open>l\<close>.\<close>

definition in_qty :: "Move list \<Rightarrow> int \<Rightarrow> int \<Rightarrow> nat" where
  "in_qty ms l b =
     sum_list (map m_quantity (filter (\<lambda>m. to_library_id m = l \<and> m_book_id m = b) ms))"

definition out_qty :: "Move list \<Rightarrow> int \<Rightarrow> int \<Rightarrow> nat" where
  "out_qty ms l b =
     sum_list (map m_quantity (filter (\<lambda>m. from_library_id m = l \<and> m_book_id m = b) ms))"

definition book_moves :: "Move list \<Rightarrow> int \<Rightarrow> Move list" where
  "book_moves ms b = filter (\<lambda>m. m_book_id m = b) ms"

text \<open>
  The constraints the database enforces: primary keys, the unique constraint
  \<open>uniq_library_book\<close> and the two foreign keys of \<open>LibraryBook\<close>.
\<close>

definition wf_store :: "store \<Rightarrow> bool" where
  "wf_store d =
     (distinct (map lib_id (libraries d)) \<and> distinct (map bk_id (books d))
      \<and> distinct (map row_key (library_books d))
      \<and> (\<forall>h \<in> set (library_books d).
            library_id h \<in> set (map lib_id (libraries d))
            \<and> book_id h \<in> set (map bk_id (books d))))"

text \<open>What the model assumes of the iteration order of a set difference.\<close>

definition set_difference_order :: "(int list \<Rightarrow> int list \<Rightarrow> int list) \<Rightarrow> bool" where
  "set_difference_order sd = (\<forall>a b. distinct (sd a b) \<and> set (sd a b) = set a - set b)"

text \<open>One such order: ascending identifiers.\<close>

definition ascending_difference :: "int list \<Rightarrow> int list \<Rightarrow> int list" where
  "ascending_difference a b = sort (remdups (filter (\<lambda>x. x \<notin> set b) a))"

section \<open>Example stores\<close>

text \<open>
  One book, five copies in library 1, three libraries: scenario B of the specification,
  with capacities.
\<close>

definition scenario_b :: store where
  "scenario_b =
     \<lparr>libraries = [\<lparr>lib_id = 1, capacity = 5\<rparr>, \<lparr>lib_id = 2, capacity = 1\<rparr>,
                   \<lparr>lib_id = 3, capacity = 9\<rparr>],
      books = [\<lparr>bk_id = 1, year = 2000, author_id = 7\<rparr>],
      library_books = [\<lparr>library_id = 1, book_id = 1, quantity = 5\<rparr>]\<rparr>"

text \<open>No library at all.\<close>

definition no_libraries :: store where
  "no_libraries =
     \<lparr>libraries = [], books = [\<lparr>bk_id = 1, year = 2000, author_id = 7\<rparr>],
      library_books = []\<rparr>"

text \<open>
  Two libraries, the second with room for one copy; library 1 holds three copies of
  book 1.
\<close>

definition one_slot :: store where
  "one_slot =
     \<lparr>libraries = [\<lparr>lib_id = 1, capacity = 5\<rparr>, \<lparr>lib_id = 2, capacity = 1\<rparr>],
      books = [\<lparr>bk_id = 1, year = 2000, author_id = 7\<rparr>],
      library_books = [\<lparr>library_id = 1, book_id = 1, quantity = 3\<rparr>]\<rparr>"

text \<open>
  Two libraries, the second already full; library 1 holds two copies of book 1 and
  library 2 one copy of book 2.
\<close>

definition full_recipient :: store where
  "full_recipient =
     \<lparr>libraries = [\<lparr>lib_id = 1, capacity = 5\<rparr>, \<lparr>lib_id = 2, capacity = 1\<rparr>],
      books = [\<lparr>bk_id = 1, year = 2000, author_id = 7\<rparr>,
               \<lparr>bk_id = 2, year = 2010, author_id = 8\<rparr>],
      library_books = [\<lparr>library_id = 1, book_id = 1, quantity = 2\<rparr>,
                       \<lparr>library_id = 2, book_id = 2, quantity = 1\<rparr>]\<rparr>"

text \<open>
  The store \<open>full_recipient\<close> before an intake: library 2 is still empty and library 1
  holds one copy of book 1.
\<close>

definition before_intake :: store where
  "before_intake =
     \<lparr>libraries = [\<lparr>lib_id = 1, capacity = 5\<rparr>, \<lparr>lib_id = 2, capacity = 1\<rparr>],
      books = [\<lparr>bk_id = 1, year = 2000, author_id = 7\<rparr>,
               \<lparr>bk_id = 2, year = 2010, author_id = 8\<rparr>],
      library_books = [\<lparr>library_id = 1, book_id = 1, quantity = 1\<rparr>]\<rparr>"

text \<open>
  Three books with two copies each in library 1 of two: books 1 (2000) and 2 (2020) by
  author 9, book 3 (1990) by author 7.
\<close>

definition three_books :: store where
  "three_books =
     \<lparr>libraries = [\<lparr>lib_id = 1, capacity = 10\<rparr>, \<lparr>lib_id = 2, capacity = 10\<rparr>],
      books = [\<lparr>bk_id = 1, year = 2000, author_id = 9\<rparr>,
               \<lparr>bk_id = 2, year = 2020, author_id = 9\<rparr>,
               \<lparr>bk_id = 3, year = 1990, author_id = 7\<rparr>],
      library_books = [\<lparr>library_id = 1, book_id = 1, quantity = 2\<rparr>,
                       \<lparr>library_id = 1, book_id = 2, quantity = 2\<rparr>,
                       \<lparr>library_id = 1, book_id = 3, quantity = 2\<rparr>]\<rparr>"

text \<open>The same with a fourth book, of 1990 and by author 7 like book 3.\<close>

definition four_books :: store where
  "four_books =
     \<lparr>libraries = [\<lparr>lib_id = 1, capacity = 10\<rparr>, \<lparr>lib_id = 2, capacity = 10\<rparr>],
      books = [\<lparr>bk_id = 1, year = 2000, author_id = 9\<rparr>,
               \<lparr>bk_id = 2, year = 2020, author_id = 9\<rparr>,
               \<lparr>bk_id = 3, year = 1990, author_id = 7\<rparr>,
               \<lparr>bk_id = 4, year = 1990, author_id = 7\<rparr>],
      library_books = [\<lparr>library_id = 1, book_id = 1, quantity = 2\<rparr>,
                       \<lparr>library_id = 1, book_id = 2, quantity = 2\<rparr>,
                       \<lparr>library_id = 1, book_id = 3, quantity = 2\<rparr>,
                       \<lparr>library_id = 1, book_id = 4, quantity = 2\<rparr>]\<rparr>"

section \<open>Auxiliary notions of the proofs\<close>

definition agg_val :: "((int \<times> int) \<times> nat) list \<Rightarrow> int \<times> int \<Rightarrow> nat" where
  "agg_val dict k = (case map_of dict k of None \<Rightarrow> 0 | Some v \<Rightarrow> v)"

definition es_sum :: "((int \<times> int) \<times> nat) list \<Rightarrow> int \<times> int \<Rightarrow> nat" where
  "es_sum es k = sum_list (map snd (filter (\<lambda>e. fst e = k) es))"

definition add_at :: "int \<times> int \<Rightarrow> nat \<Rightarrow> LibraryBook \<Rightarrow> LibraryBook" where
  "add_at k q r = (if row_key r = k then r\<lparr>quantity := quantity r + q\<rparr> else r)"

definition sub_at :: "int \<times> int \<Rightarrow> nat \<Rightarrow> LibraryBook \<Rightarrow> LibraryBook" where
  "sub_at k q r = (if row_key r = k then r\<lparr>quantity := quantity r - q\<rparr> else r)"

definition new_row :: "(int \<times> int) \<times> nat \<Rightarrow> LibraryBook" where
  "new_row e = \<lparr>library_id = fst (fst e), book_id = snd (fst e), quantity = snd e\<rparr>"

definition from_count :: "Move list \<Rightarrow> int \<Rightarrow> nat" where
  "from_count ms l = length (filter (\<lambda>m. from_library_id m = l) ms)"

definition to_count :: "Move list \<Rightarrow> int \<Rightarrow> nat" where
  "to_count ms l = length (filter (\<lambda>m. to_library_id m = l) ms)"

definition spare :: "LibraryBook list \<Rightarrow> int \<Rightarrow> nat" where
  "spare ds l = sum_list (map (\<lambda>h. quantity h - 1) (filter (\<lambda>h. library_id h = l) ds))"

definition unit_moves :: "int \<Rightarrow> int list \<Rightarrow> Move list \<Rightarrow> bool" where
  "unit_moves b rs new =
     (\<forall>m \<in> set new. m_book_id m = b \<and> m_quantity m = 1 \<and> to_library_id m \<in> set rs)"

definition dests_inv :: "int list \<Rightarrow> nat \<Rightarrow> Move list \<Rightarrow> bool" where
  "dests_inv rs ri ms =
     (distinct (map to_library_id ms) \<and> set (map to_library_id ms) \<subseteq> set (take ri rs))"

definition fcget :: "(int \<times> int) list \<Rightarrow> int \<Rightarrow> int" where
  "fcget fc l = (case map_of fc l of None \<Rightarrow> 0 | Some v \<Rightarrow> v)"

definition cap_step ::
    "int \<Rightarrow> int list \<Rightarrow> nat \<Rightarrow> (int \<times> int) list \<Rightarrow> nat \<Rightarrow> (int \<times> int) list \<Rightarrow> Move list \<Rightarrow> bool" where
  "cap_step b rs cov fc cov' fc' new =
     (unit_moves b rs new \<and> cov' = cov + length new \<and> map fst fc' = map fst fc
      \<and> (\<forall>l. fcget fc' l + int (to_count new l) = fcget fc l)
      \<and> (\<forall>l. 0 \<le> fcget fc l \<longrightarrow> 0 \<le> fcget fc' l))"

definition book_plan_ok :: "store \<Rightarrow> nat \<Rightarrow> int \<Rightarrow> Move list \<Rightarrow> bool" where
  "book_plan_ok d nlibs b new =
     ((\<forall>m \<in> set new. m_book_id m = b \<and> m_quantity m = 1)
      \<and> (\<forall>l. from_count new l \<le> qty (library_books d) l b - 1)
      \<and> (new \<noteq> [] \<longrightarrow> coverage d b + length new \<le> min nlibs (book_total d b)))"

definition book_dests_ok :: "store \<Rightarrow> int \<Rightarrow> Move list \<Rightarrow> bool" where
  "book_dests_ok d b new =
     (distinct (map to_library_id new)
      \<and> (\<forall>m \<in> set new. qty (library_books d) (to_library_id m) b = 0))"

definition fc_rel :: "(int \<times> int) list \<Rightarrow> (int \<times> int) list \<Rightarrow> Move list \<Rightarrow> bool" where
  "fc_rel fc fc' new =
     (map fst fc' = map fst fc
      \<and> (\<forall>l. fcget fc' l + int (to_count new l) = fcget fc l)
      \<and> (\<forall>l. 0 \<le> fcget fc l \<longrightarrow> 0 \<le> fcget fc' l))"

definition eff_fc :: "manager \<Rightarrow> store \<Rightarrow> (int \<times> int) list" where
  "eff_fc m d = (if free_capacity m = [] then compute_free_capacity d else free_capacity m)"

definition run_ok ::
    "(int list \<Rightarrow> int list \<Rightarrow> int list) \<Rightarrow> manager \<Rightarrow> store \<Rightarrow> Move list \<Rightarrow> (int \<times> int) list
      \<Rightarrow> store \<Rightarrow> bool" where
  "run_ok sd m d ms fc' d' =
     (apply_plan ms d = Inr d'
      \<and> libraries d' = libraries d \<and> books d' = books d
      \<and> distinct (map row_key (library_books d'))
      \<and> (\<forall>l b. qty (library_books d') l b
             = qty (library_books d) l b + in_qty ms l b - out_qty ms l b)
      \<and> (\<forall>b. book_plan_ok d (length (libraries d)) b (book_moves ms b))
      \<and> (set_difference_order sd \<longrightarrow> (\<forall>b. book_dests_ok d b (book_moves ms b)))
      \<and> (kind m = Base \<longrightarrow> fc' = free_capacity m)
      \<and> (kind m \<noteq> Base \<longrightarrow> fc_rel (eff_fc m d) (eff_fc (m\<lparr>free_capacity := fc'\<rparr>) d) ms))"

section \<open>Properties\<close>

subsection \<open>Dictionaries of aggregated quantities\<close>

lemma agg_val_add_qty:
  "agg_val (add_qty dict k q) k' = agg_val dict k' + (if k' = k then q else 0)"
  by (simp add: agg_val_def add_qty_def update_conv')

lemma distinct_add_qty:
  "distinct (map fst dict) \<Longrightarrow> distinct (map fst (add_qty dict k q))"
  by (simp add: add_qty_def distinct_update)

lemma keys_add_qty: "fst ` set (add_qty dict k q) = insert k (fst ` set dict)"
  by (simp add: add_qty_def dom_update)

lemma in_qty_Cons:
  "in_qty (m # ms) l b =
     (if to_library_id m = l \<and> m_book_id m = b then m_quantity m else 0) + in_qty ms l b"
  by (simp add: in_qty_def)

lemma out_qty_Cons:
  "out_qty (m # ms) l b =
     (if from_library_id m = l \<and> m_book_id m = b then m_quantity m else 0) + out_qty ms l b"
  by (simp add: out_qty_def)

lemma aggregate_vals:
  "aggregate ms (inc0, dec0) = (inc, dec) \<Longrightarrow>
     agg_val inc (l, b) = agg_val inc0 (l, b) + in_qty ms l b
     \<and> agg_val dec (l, b) = agg_val dec0 (l, b) + out_qty ms l b"
proof (induction ms arbitrary: inc0 dec0)
  case Nil
  then show ?case by (simp add: in_qty_def out_qty_def)
next
  case (Cons m ms)
  from Cons.prems Cons.IH show ?case
    by (auto simp: agg_val_add_qty in_qty_Cons out_qty_Cons)
qed

lemma aggregate_distinct:
  "aggregate ms (inc0, dec0) = (inc, dec) \<Longrightarrow> distinct (map fst inc0) \<Longrightarrow>
     distinct (map fst dec0) \<Longrightarrow> distinct (map fst inc) \<and> distinct (map fst dec)"
proof (induction ms arbitrary: inc0 dec0)
  case Nil
  then show ?case by simp
next
  case (Cons m ms)
  from Cons.prems Cons.IH show ?case
    by (simp add: distinct_add_qty)
qed

lemma es_sum_notin: "k \<notin> fst ` set es \<Longrightarrow> es_sum es k = 0"
  by (induction es) (auto simp: es_sum_def)

lemma es_sum_agg_val: "distinct (map fst es) \<Longrightarrow> es_sum es k = agg_val es k"
proof (induction es)
  case Nil
  then show ?case by (simp add: es_sum_def agg_val_def)
next
  case (Cons e es)
  show ?case
  proof (cases "fst e = k")
    case True
    with Cons.prems have "k \<notin> fst ` set es" by auto
    then have "es_sum es k = 0" by (rule es_sum_notin)
    with True show ?thesis by (cases e) (simp add: es_sum_def agg_val_def)
  next
    case False
    with Cons show ?thesis by (cases e) (simp add: es_sum_def agg_val_def)
  qed
qed

subsection \<open>Quantities held, row by row\<close>

lemma qty_Nil [simp]: "qty [] l b = 0"
  by (simp add: qty_def)

lemma qty_Cons:
  "qty (r # tbl) l b = (if row_key r = (l, b) then quantity r else 0) + qty tbl l b"
  by (simp add: qty_def row_key_def)

lemma qty_append: "qty (xs @ ys) l b = qty xs l b + qty ys l b"
  by (simp add: qty_def)

lemma qty_notin: "(l, b) \<notin> row_key ` set tbl \<Longrightarrow> qty tbl l b = 0"
  by (induction tbl) (auto simp: qty_Cons)

lemma qty_unique:
  "distinct (map row_key tbl) \<Longrightarrow> r \<in> set tbl \<Longrightarrow> qty tbl (library_id r) (book_id r) = quantity r"
proof (induction tbl)
  case Nil
  then show ?case by simp
next
  case (Cons x tbl)
  show ?case
  proof (cases "r = x")
    case True
    with Cons.prems have "row_key x \<notin> row_key ` set tbl" by simp
    then have "qty tbl (library_id x) (book_id x) = 0"
      by (intro qty_notin) (simp add: row_key_def)
    with True show ?thesis by (simp add: qty_Cons row_key_def)
  next
    case False
    with Cons.prems have r: "r \<in> set tbl" and "row_key x \<notin> row_key ` set tbl" by auto
    then have "row_key x \<noteq> row_key r" by auto
    with Cons r show ?thesis by (auto simp: qty_Cons row_key_def)
  qed
qed

lemma row_key_add_at [simp]: "row_key (add_at k q r) = row_key r"
  by (simp add: add_at_def row_key_def)

lemma row_key_sub_at [simp]: "row_key (sub_at k q r) = row_key r"
  by (simp add: sub_at_def row_key_def)

lemma row_key_comp_add_at [simp]: "row_key \<circ> add_at k q = row_key"
  by (rule ext) simp

lemma row_key_comp_sub_at [simp]: "row_key \<circ> sub_at k q = row_key"
  by (rule ext) simp

lemma qty_map_add_at:
  "distinct (map row_key tbl) \<Longrightarrow> k \<in> row_key ` set tbl \<Longrightarrow>
     qty (map (add_at k q) tbl) l b = qty tbl l b + (if (l, b) = k then q else 0)"
proof (induction tbl)
  case Nil
  then show ?case by simp
next
  case (Cons r tbl)
  show ?case
  proof (cases "row_key r = k")
    case True
    with Cons.prems have "k \<notin> row_key ` set tbl" by auto
    then have "map (add_at k q) tbl = tbl"
      by (intro map_idI) (auto simp: add_at_def)
    then have same: "map (add_at k q) tbl = tbl" .
    show ?thesis unfolding list.map same qty_Cons row_key_add_at
      using True by (auto simp: add_at_def)
  next
    case False
    then have "add_at k q r = r" by (simp add: add_at_def)
    with False Cons show ?thesis by (auto simp: qty_Cons)
  qed
qed

lemma qty_map_sub_at:
  "distinct (map row_key tbl) \<Longrightarrow>
     qty (map (sub_at k q) tbl) l b = qty tbl l b - (if (l, b) = k then q else 0)"
proof (induction tbl)
  case Nil
  then show ?case by simp
next
  case (Cons r tbl)
  show ?case
  proof (cases "row_key r = k")
    case True
    with Cons.prems have notin: "k \<notin> row_key ` set tbl" by auto
    then have same: "map (sub_at k q) tbl = tbl"
      by (intro map_idI) (auto simp: sub_at_def)
    from notin True have "qty tbl (fst k) (snd k) = 0"
      by (intro qty_notin) simp
    then have "(l, b) = k \<Longrightarrow> qty tbl l b = 0" by auto
    then show ?thesis unfolding list.map same qty_Cons row_key_sub_at
      using True by (auto simp: sub_at_def)
  next
    case False
    then have "sub_at k q r = r" by (simp add: sub_at_def)
    with False Cons show ?thesis by (auto simp: qty_Cons)
  qed
qed

subsection \<open>The three phases of the applier\<close>

lemma es_sum_Cons:
  "es_sum ((k, q) # es) k' = (if k = k' then q else 0) + es_sum es k'"
  by (simp add: es_sum_def)

lemma add_at_eq:
  "(\<lambda>r. if row_key r = k then r\<lparr>quantity := quantity r + q\<rparr> else r) = add_at k q"
  by (rule ext) (simp add: add_at_def)

lemma sub_at_eq:
  "(\<lambda>r. if row_key r = k then r\<lparr>quantity := quantity r - q\<rparr> else r) = sub_at k q"
  by (rule ext) (simp add: sub_at_def)

lemma row_key_new_row [simp]: "row_key (new_row e) = fst e"
  by (simp add: new_row_def row_key_def)

lemma quantity_new_row [simp]: "quantity (new_row e) = snd e"
  by (simp add: new_row_def)

lemma apply_inc_effect:
  assumes "apply_inc by_key es (tbl, tc) = (tbl', tc')"
    and "\<And>k row. by_key k = Some row \<Longrightarrow> row_key row = k"
    and "\<And>k. k \<in> fst ` set es \<Longrightarrow> (by_key k = None) = (k \<notin> set (map row_key tbl))"
    and "distinct (map row_key tbl)"
  shows "map row_key tbl' = map row_key tbl
     \<and> (\<forall>l b. qty tbl' l b
           = qty tbl l b + (if (l, b) \<in> set (map row_key tbl) then es_sum es (l, b) else 0))
     \<and> tc' = tc @ map new_row (filter (\<lambda>e. fst e \<notin> set (map row_key tbl)) es)"
  using assms
proof (induction es arbitrary: tbl tc)
  case Nil
  then show ?case by (simp add: es_sum_def)
next
  case (Cons e es)
  obtain k q where e: "e = (k, q)" by (cases e)
  show ?case
  proof (cases "by_key k")
    case None
    with Cons.prems(3) [of k] e have notin: "k \<notin> set (map row_key tbl)" by simp
    from Cons.prems(1) e None
    have run: "apply_inc by_key es (tbl, tc @ [new_row (k, q)]) = (tbl', tc')"
      by (simp add: new_row_def)
    have "map row_key tbl' = map row_key tbl
       \<and> (\<forall>l b. qty tbl' l b
             = qty tbl l b + (if (l, b) \<in> set (map row_key tbl) then es_sum es (l, b) else 0))
       \<and> tc' = (tc @ [new_row (k, q)])
               @ map new_row (filter (\<lambda>e. fst e \<notin> set (map row_key tbl)) es)"
      using run Cons.prems(2) Cons.prems(3) Cons.prems(4)
      by (intro Cons.IH) auto
    with notin e show ?thesis by (auto simp: es_sum_Cons)
  next
    case (Some row)
    from Cons.prems(2) [OF Some] have rk: "row_key row = k" .
    from Cons.prems(3) [of k] e Some have isin: "k \<in> set (map row_key tbl)" by auto
    let ?tbl = "map (add_at k q) tbl"
    from Cons.prems(1) e Some rk
    have run: "apply_inc by_key es (?tbl, tc) = (tbl', tc')"
      by (simp add: add_at_eq)
    have keys: "map row_key ?tbl = map row_key tbl" by simp
    have "map row_key tbl' = map row_key ?tbl
       \<and> (\<forall>l b. qty tbl' l b
             = qty ?tbl l b + (if (l, b) \<in> set (map row_key ?tbl) then es_sum es (l, b) else 0))
       \<and> tc' = tc @ map new_row (filter (\<lambda>e. fst e \<notin> set (map row_key ?tbl)) es)"
    proof (rule Cons.IH [OF run])
      show "\<And>k row. by_key k = Some row \<Longrightarrow> row_key row = k" by (rule Cons.prems(2))
      show "\<And>k. k \<in> fst ` set es \<Longrightarrow> (by_key k = None) = (k \<notin> set (map row_key ?tbl))"
        unfolding keys using Cons.prems(3) by simp
      show "distinct (map row_key ?tbl)" unfolding keys by (rule Cons.prems(4))
    qed
    moreover have "qty ?tbl l b = qty tbl l b + (if (l, b) = k then q else 0)" for l b
      using Cons.prems(4) isin by (intro qty_map_add_at) auto
    ultimately show ?thesis using isin e unfolding keys by (auto simp: es_sum_Cons)
  qed
qed

lemma bulk_create_fresh:
  "distinct (map row_key tc) \<Longrightarrow> set (map row_key tc) \<inter> set (map row_key tbl) = {} \<Longrightarrow>
     bulk_create tc tbl = tbl @ tc"
proof (induction tc arbitrary: tbl)
  case Nil
  then show ?case by simp
next
  case (Cons r tc)
  from Cons.prems have "row_key r \<notin> row_key ` set tbl" by auto
  moreover have "bulk_create tc (tbl @ [r]) = (tbl @ [r]) @ tc"
    using Cons.prems by (intro Cons.IH) auto
  ultimately show ?case by simp
qed

lemma qty_new_rows:
  "qty (map new_row (filter (\<lambda>e. fst e \<notin> K) es)) l b
     = (if (l, b) \<notin> K then es_sum es (l, b) else 0)"
proof (induction es)
  case Nil
  then show ?case by (simp add: es_sum_def)
next
  case (Cons e es)
  obtain k q where e: "e = (k, q)" by (cases e)
  with Cons show ?case
    by (auto simp: qty_Cons es_sum_Cons)
qed

lemma keys_new_rows:
  "map row_key (map new_row (filter (\<lambda>e. fst e \<notin> K) es)) = filter (\<lambda>k. k \<notin> K) (map fst es)"
  by (induction es) auto

lemma apply_dec_effect:
  assumes "distinct (map fst es)" and "distinct (map row_key tbl)"
    and "\<And>k. es_sum es k \<le> qty tbl (fst k) (snd k)"
  shows "\<exists>tbl'. apply_dec es tbl = Inr tbl' \<and> map row_key tbl' = map row_key tbl
           \<and> (\<forall>l b. qty tbl' l b = qty tbl l b - es_sum es (l, b))"
  using assms
proof (induction es arbitrary: tbl)
  case Nil
  then show ?case by (simp add: es_sum_def)
next
  case (Cons e es)
  obtain k q where e: "e = (k, q)" by (cases e)
  have ok: "\<not> (\<exists>r \<in> set tbl. row_key r = k \<and> quantity r < q)"
  proof
    assume "\<exists>r \<in> set tbl. row_key r = k \<and> quantity r < q"
    then obtain r where r: "r \<in> set tbl" "row_key r = k" "quantity r < q" by blast
    from qty_unique [OF Cons.prems(2) r(1)] r(2)
    have "qty tbl (fst k) (snd k) = quantity r" by (auto simp: row_key_def)
    moreover from Cons.prems(3) [of k] e have "q \<le> qty tbl (fst k) (snd k)"
      by (simp add: es_sum_Cons)
    ultimately show False using r(3) by simp
  qed
  let ?tbl = "map (sub_at k q) tbl"
  have q2: "qty ?tbl l b = qty tbl l b - (if (l, b) = k then q else 0)" for l b
    using Cons.prems(2) by (rule qty_map_sub_at)
  from Cons.prems(1) e have knew: "k \<notin> fst ` set es" by auto
  have bound: "es_sum es k' \<le> qty ?tbl (fst k') (snd k')" for k'
  proof (cases "k' = k")
    case True
    with knew show ?thesis by (simp add: es_sum_notin)
  next
    case False
    with Cons.prems(3) [of k'] e show ?thesis by (simp add: q2 es_sum_Cons)
  qed
  have "\<exists>tbl'. apply_dec es ?tbl = Inr tbl' \<and> map row_key tbl' = map row_key ?tbl
           \<and> (\<forall>l b. qty tbl' l b = qty ?tbl l b - es_sum es (l, b))"
  proof (rule Cons.IH)
    show "distinct (map fst es)" using Cons.prems(1) by simp
    show "distinct (map row_key ?tbl)" using Cons.prems(2) by simp
    show "\<And>k. es_sum es k \<le> qty ?tbl (fst k) (snd k)" by (rule bound)
  qed
  then obtain tbl' where t: "apply_dec es ?tbl = Inr tbl'" "map row_key tbl' = map row_key ?tbl"
    "\<And>l b. qty tbl' l b = qty ?tbl l b - es_sum es (l, b)" by blast
  from ok e t(1) have "apply_dec (e # es) tbl = Inr tbl'" by (simp add: sub_at_eq)
  moreover have "qty tbl' l b = qty tbl l b - es_sum (e # es) (l, b)" for l b
    using t(3) [of l b] q2 [of l b] e by (auto simp: es_sum_Cons)
  ultimately show ?case using t(2) by auto
qed

lemma by_key_Some:
  "map_of (rev (map (\<lambda>r. (row_key r, r)) rows)) k = Some row \<Longrightarrow> row_key row = k"
  by (auto dest!: map_of_SomeD)

lemma by_key_None:
  assumes "k \<in> set touched"
  shows "(map_of (rev (map (\<lambda>r. (row_key r, r))
            (filter (\<lambda>r. library_id r \<in> set (map fst touched)
                          \<and> book_id r \<in> set (map snd touched)) tbl))) k = None)
         = (k \<notin> set (map row_key tbl))"
proof -
  have "(\<exists>r \<in> set tbl. library_id r \<in> fst ` set touched \<and> book_id r \<in> snd ` set touched
            \<and> row_key r = k) = (\<exists>r \<in> set tbl. row_key r = k)"
    using assms by (force simp: row_key_def)
  then show ?thesis
    by (auto simp: map_of_eq_None_iff image_iff)
qed

lemma apply_plan_effect:
  assumes uniq: "distinct (map row_key (library_books d))"
    and enough: "\<And>l b. out_qty ms l b \<le> qty (library_books d) l b + in_qty ms l b"
  shows "\<exists>d'. apply_plan ms d = Inr d' \<and> libraries d' = libraries d \<and> books d' = books d
           \<and> distinct (map row_key (library_books d'))
           \<and> (\<forall>l b. qty (library_books d') l b
                 = qty (library_books d) l b + in_qty ms l b - out_qty ms l b)"
proof -
  let ?tbl = "library_books d"
  obtain inc dec where agg: "aggregate ms ([], []) = (inc, dec)"
    by (cases "aggregate ms ([], [])")
  from aggregate_vals [OF agg]
  have inc_val: "agg_val inc (l, b) = in_qty ms l b"
    and dec_val: "agg_val dec (l, b) = out_qty ms l b" for l b
    by (simp_all add: agg_val_def)
  from aggregate_distinct [OF agg] have dinc: "distinct (map fst inc)"
    and ddec: "distinct (map fst dec)" by simp_all
  define touched where "touched = remdups (map fst inc @ map fst dec)"
  define rows where "rows = filter (\<lambda>r. library_id r \<in> set (map fst touched)
                                 \<and> book_id r \<in> set (map snd touched)) ?tbl"
  define by_key where "by_key = map_of (rev (map (\<lambda>r. (row_key r, r)) rows))"
  obtain tbl1 tc where ai: "apply_inc by_key inc (?tbl, []) = (tbl1, tc)"
    by (cases "apply_inc by_key inc (?tbl, [])")
  have eff: "map row_key tbl1 = map row_key ?tbl
     \<and> (\<forall>l b. qty tbl1 l b
           = qty ?tbl l b + (if (l, b) \<in> set (map row_key ?tbl) then es_sum inc (l, b) else 0))
     \<and> tc = [] @ map new_row (filter (\<lambda>e. fst e \<notin> set (map row_key ?tbl)) inc)"
  proof (rule apply_inc_effect [OF ai])
    show "\<And>k row. by_key k = Some row \<Longrightarrow> row_key row = k"
      unfolding by_key_def by (rule by_key_Some)
    show "\<And>k. k \<in> fst ` set inc \<Longrightarrow> (by_key k = None) = (k \<notin> set (map row_key ?tbl))"
      unfolding by_key_def rows_def by (rule by_key_None) (auto simp: touched_def)
    show "distinct (map row_key ?tbl)" by (rule uniq)
  qed
  then have keys1: "map row_key tbl1 = map row_key ?tbl"
    and q1: "\<And>l b. qty tbl1 l b
           = qty ?tbl l b + (if (l, b) \<in> set (map row_key ?tbl) then es_sum inc (l, b) else 0)"
    and tc: "tc = map new_row (filter (\<lambda>e. fst e \<notin> set (map row_key ?tbl)) inc)"
    by simp_all
  have keys_tc: "map row_key tc = filter (\<lambda>k. k \<notin> set (map row_key ?tbl)) (map fst inc)"
    unfolding tc by (rule keys_new_rows)
  have dtc: "distinct (map row_key tc)" unfolding keys_tc using dinc by simp
  have disj: "set (map row_key tc) \<inter> set (map row_key tbl1) = {}"
    unfolding keys_tc keys1 by auto
  have bc: "bulk_create tc tbl1 = tbl1 @ tc"
    using dtc disj by (rule bulk_create_fresh)
  have d2: "distinct (map row_key (tbl1 @ tc))"
    using dtc disj uniq keys1 by auto
  have q2: "qty (tbl1 @ tc) l b = qty ?tbl l b + in_qty ms l b" for l b
  proof -
    have "qty tc l b = (if (l, b) \<notin> set (map row_key ?tbl) then es_sum inc (l, b) else 0)"
      unfolding tc by (rule qty_new_rows)
    with q1 [of l b] have "qty (tbl1 @ tc) l b = qty ?tbl l b + es_sum inc (l, b)"
      by (simp add: qty_append)
    with es_sum_agg_val [OF dinc] inc_val show ?thesis by simp
  qed
  have bound: "es_sum dec k \<le> qty (tbl1 @ tc) (fst k) (snd k)" for k
    using es_sum_agg_val [OF ddec, of k] dec_val [of "fst k" "snd k"]
      enough [of "fst k" "snd k"] q2 [of "fst k" "snd k"] by simp
  from apply_dec_effect [OF ddec d2 bound]
  obtain tbl' where t: "apply_dec dec (tbl1 @ tc) = Inr tbl'"
    "map row_key tbl' = map row_key (tbl1 @ tc)"
    "\<And>l b. qty tbl' l b = qty (tbl1 @ tc) l b - es_sum dec (l, b)" by blast
  have "apply_plan ms d = Inr (d\<lparr>library_books := tbl'\<rparr>)"
    unfolding apply_plan_def Let_def agg prod.case
      ai [unfolded by_key_def rows_def touched_def] bc t(1) sum.case ..
  moreover have "distinct (map row_key tbl')" using t(2) d2 by simp
  moreover have "qty tbl' l b = qty ?tbl l b + in_qty ms l b - out_qty ms l b" for l b
    using t(3) [of l b] q2 [of l b] es_sum_agg_val [OF ddec, of "(l, b)"] dec_val [of l b]
    by simp
  ultimately show ?thesis by simp
qed

lemma mk_move_sel [simp]:
  "m_book_id (mk_move b s t) = b" "from_library_id (mk_move b s t) = s"
  "to_library_id (mk_move b s t) = t" "m_quantity (mk_move b s t) = 1"
  by (simp_all add: mk_move_def)

lemma from_count_simps [simp]:
  "from_count [] l = 0"
  "from_count (xs @ ys) l = from_count xs l + from_count ys l"
  "from_count (m # ms) l = (if from_library_id m = l then 1 else 0) + from_count ms l"
  by (simp_all add: from_count_def)

lemma to_count_simps [simp]:
  "to_count [] l = 0"
  "to_count (xs @ ys) l = to_count xs l + to_count ys l"
  "to_count (m # ms) l = (if to_library_id m = l then 1 else 0) + to_count ms l"
  by (simp_all add: to_count_def)

lemma unit_moves_simps [simp]:
  "unit_moves b rs []"
  "unit_moves b rs (xs @ ys) = (unit_moves b rs xs \<and> unit_moves b rs ys)"
  "unit_moves b rs (m # ms) =
     (m_book_id m = b \<and> m_quantity m = 1 \<and> to_library_id m \<in> set rs \<and> unit_moves b rs ms)"
  by (auto simp: unit_moves_def)

lemma dests_inv_step:
  assumes "distinct rs" "ri < length rs" "dests_inv rs ri ms"
  shows "dests_inv rs (Suc ri) (ms @ [mk_move b dn (rs ! ri)])"
proof -
  have "rs ! ri \<notin> set (take ri rs)"
  proof
    assume "rs ! ri \<in> set (take ri rs)"
    then obtain j where "j < ri" "rs ! j = rs ! ri"
      using assms(2) by (auto simp: in_set_conv_nth)
    with assms(1,2) show False by (auto simp: nth_eq_iff_index_eq)
  qed
  with assms show ?thesis
    by (auto simp: dests_inv_def take_Suc_conv_app_nth)
qed

lemma dests_inv_skip: "dests_inv rs ri ms \<Longrightarrow> dests_inv rs (Suc ri) ms"
  using set_take_subset_set_take [of ri "Suc ri" rs] by (auto simp: dests_inv_def)

subsection \<open>The base loops\<close>

lemma base_while_new:
  "base_while b dn t rs c (ms, ri, cov) = (ms', ri', cov') \<Longrightarrow>
     \<exists>new. ms' = ms @ new \<and> unit_moves b rs new \<and> length new \<le> c
       \<and> (\<forall>l. from_count new l = (if l = dn then length new else 0))
       \<and> cov' = cov + length new \<and> (cov \<le> t \<longrightarrow> cov' \<le> t)"
proof (induction b dn t rs c "(ms, ri, cov)" arbitrary: ms ri cov rule: base_while.induct)
  case (1 b dn t rs c ms ri cov)
  show ?case
  proof (cases "c > 0 \<and> cov < t \<and> ri < length rs")
    case True
    with "1.prems" have run: "base_while b dn t rs (c - 1)
        (ms @ [mk_move b dn (rs ! ri)], ri + 1, cov + 1) = (ms', ri', cov')"
      by (subst (asm) base_while.simps) simp
    from "1.hyps" [OF True run] obtain new where
      n: "ms' = (ms @ [mk_move b dn (rs ! ri)]) @ new" "unit_moves b rs new"
      "length new \<le> c - 1" "\<forall>l. from_count new l = (if l = dn then length new else 0)"
      "cov' = cov + 1 + length new" "cov + 1 \<le> t \<longrightarrow> cov' \<le> t" by blast
    let ?new = "mk_move b dn (rs ! ri) # new"
    have "ms' = ms @ ?new" using n(1) by simp
    moreover have "unit_moves b rs ?new" using n(2) True by simp
    moreover have "length ?new \<le> c" using n(3) True by auto
    moreover have "\<forall>l. from_count ?new l = (if l = dn then length ?new else 0)"
      using n(4) by simp
    moreover have "cov' = cov + length ?new" using n(5) by simp
    moreover have "cov \<le> t \<longrightarrow> cov' \<le> t" using n(6) True by simp
    ultimately show ?thesis by blast
  next
    case False
    with "1.prems" have "ms' = ms" "cov' = cov"
      by (subst (asm) base_while.simps, simp)+
    then show ?thesis by simp
  qed
qed

lemma base_while_dests:
  "base_while b dn t rs c (ms, ri, cov) = (ms', ri', cov') \<Longrightarrow> distinct rs \<Longrightarrow>
     dests_inv rs ri ms \<Longrightarrow> dests_inv rs ri' ms'"
proof (induction b dn t rs c "(ms, ri, cov)" arbitrary: ms ri cov rule: base_while.induct)
  case (1 b dn t rs c ms ri cov)
  show ?case
  proof (cases "c > 0 \<and> cov < t \<and> ri < length rs")
    case True
    with "1.prems"(1) have run: "base_while b dn t rs (c - 1)
        (ms @ [mk_move b dn (rs ! ri)], ri + 1, cov + 1) = (ms', ri', cov')"
      by (subst (asm) base_while.simps) simp
    have "dests_inv rs (ri + 1) (ms @ [mk_move b dn (rs ! ri)])"
      using dests_inv_step [OF "1.prems"(2) _ "1.prems"(3)] True by simp
    from "1.hyps" [OF True run "1.prems"(2) this] show ?thesis .
  next
    case False
    with "1.prems"(1) have "ms' = ms" "ri' = ri"
      by (subst (asm) base_while.simps, simp)+
    with "1.prems"(3) show ?thesis by simp
  qed
qed

lemma spare_Cons [simp]:
  "spare (h # hs) l = (if library_id h = l then quantity h - 1 else 0) + spare hs l"
  by (simp add: spare_def)

lemma spare_Nil [simp]: "spare [] l = 0"
  by (simp add: spare_def)

lemma base_for_new:
  "base_for b t rs ds (ms, ri, cov) = (ms', ri', cov') \<Longrightarrow>
     \<exists>new. ms' = ms @ new \<and> unit_moves b rs new
       \<and> (\<forall>l. from_count new l \<le> spare ds l)
       \<and> cov' = cov + length new \<and> (cov \<le> t \<longrightarrow> cov' \<le> t)"
proof (induction ds arbitrary: ms ri cov)
  case Nil
  then show ?case by simp
next
  case (Cons h ds)
  obtain ms1 ri1 cov1 where w:
    "base_while b (library_id h) t rs (quantity h - 1) (ms, ri, cov) = (ms1, ri1, cov1)"
    by (cases "base_while b (library_id h) t rs (quantity h - 1) (ms, ri, cov)")
  from base_while_new [OF w] obtain new1 where
    n1: "ms1 = ms @ new1" "unit_moves b rs new1" "length new1 \<le> quantity h - 1"
    "\<forall>l. from_count new1 l = (if l = library_id h then length new1 else 0)"
    "cov1 = cov + length new1" "cov \<le> t \<longrightarrow> cov1 \<le> t" by blast
  show ?case
  proof (cases "cov1 \<ge> t")
    case True
    with Cons.prems w have "ms' = ms1" "cov' = cov1" by simp_all
    with n1 show ?thesis by (intro exI [of _ new1]) auto
  next
    case False
    with Cons.prems w have "base_for b t rs ds (ms1, ri1, cov1) = (ms', ri', cov')" by simp
    from Cons.IH [OF this] obtain new2 where
      n2: "ms' = ms1 @ new2" "unit_moves b rs new2" "\<forall>l. from_count new2 l \<le> spare ds l"
      "cov' = cov1 + length new2" "cov1 \<le> t \<longrightarrow> cov' \<le> t" by blast
    have "\<forall>l. from_count (new1 @ new2) l \<le> spare (h # ds) l"
    proof
      fix l
      from n1(3,4) n2(3) have "from_count new1 l \<le> (if library_id h = l then quantity h - 1 else 0)"
        "from_count new2 l \<le> spare ds l" by auto
      then show "from_count (new1 @ new2) l \<le> spare (h # ds) l" by simp
    qed
    with n1 n2 show ?thesis by (intro exI [of _ "new1 @ new2"]) auto
  qed
qed

lemma base_for_dests:
  "base_for b t rs ds (ms, ri, cov) = (ms', ri', cov') \<Longrightarrow> distinct rs \<Longrightarrow>
     dests_inv rs ri ms \<Longrightarrow> dests_inv rs ri' ms'"
proof (induction ds arbitrary: ms ri cov)
  case Nil
  then show ?case by simp
next
  case (Cons h ds)
  obtain ms1 ri1 cov1 where w:
    "base_while b (library_id h) t rs (quantity h - 1) (ms, ri, cov) = (ms1, ri1, cov1)"
    by (cases "base_while b (library_id h) t rs (quantity h - 1) (ms, ri, cov)")
  from base_while_dests [OF w Cons.prems(2,3)] have i1: "dests_inv rs ri1 ms1" .
  show ?case
  proof (cases "cov1 \<ge> t")
    case True
    with Cons.prems(1) w i1 show ?thesis by auto
  next
    case False
    with Cons.prems(1) w have "base_for b t rs ds (ms1, ri1, cov1) = (ms', ri', cov')" by simp
    from Cons.IH [OF this Cons.prems(2) i1] show ?thesis .
  qed
qed

subsection \<open>The capacity-aware loops\<close>

lemma fcget_update: "fcget (AList.update k v fc) l = (if l = k then v else fcget fc l)"
  by (simp add: fcget_def update_conv')

lemma keys_update_present:
  "k \<in> fst ` set fc \<Longrightarrow> map fst (AList.update k v fc) = map fst fc"
  by (simp add: update_keys)

lemma cap_step_refl: "cap_step b rs cov fc cov fc []"
  by (simp add: cap_step_def)

lemma cap_step_trans:
  "cap_step b rs cov fc cov1 fc1 new1 \<Longrightarrow> cap_step b rs cov1 fc1 cov2 fc2 new2 \<Longrightarrow>
     cap_step b rs cov fc cov2 fc2 (new1 @ new2)"
proof -
  assume a: "cap_step b rs cov fc cov1 fc1 new1" and b: "cap_step b rs cov1 fc1 cov2 fc2 new2"
  have "fcget fc2 l + int (to_count (new1 @ new2) l) = fcget fc l" for l
  proof -
    from a have "fcget fc1 l + int (to_count new1 l) = fcget fc l" by (simp add: cap_step_def)
    moreover from b have "fcget fc2 l + int (to_count new2 l) = fcget fc1 l"
      by (simp add: cap_step_def)
    ultimately show ?thesis by simp
  qed
  with a b show ?thesis by (simp add: cap_step_def)
qed

lemma cap_step_one:
  assumes "ri < length rs" "map_of fc (rs ! ri) = Some free" "0 < free"
  shows "cap_step b rs cov fc (cov + 1) (AList.update (rs ! ri) (free - 1) fc)
           [mk_move b dn (rs ! ri)]"
proof -
  from assms(2) have "rs ! ri \<in> fst ` set fc"
    by (metis domI dom_map_of_conv_image_fst)
  then have "map fst (AList.update (rs ! ri) (free - 1) fc) = map fst fc"
    by (rule keys_update_present)
  moreover have "fcget fc (rs ! ri) = free" using assms(2) by (simp add: fcget_def)
  ultimately show ?thesis using assms(1,3)
    by (auto simp: cap_step_def fcget_update)
qed

lemma capacity_while_stop:
  assumes "\<not> (0 < c \<and> cov < t \<and> ri < length rs)"
  shows "capacity_while b dn t rs c (ms, ri, cov, fc) = Inr (ms, ri, cov, fc)"
  by (subst capacity_while.simps) (simp only: assms if_False)

lemma capacity_while_None:
  assumes "0 < c \<and> cov < t \<and> ri < length rs" "map_of fc (rs ! ri) = None"
  shows "capacity_while b dn t rs c (ms, ri, cov, fc) = Inl KeyError"
  by (subst capacity_while.simps) (simp only: assms if_True option.case simp_thms)

lemma capacity_while_skip:
  assumes "0 < c \<and> cov < t \<and> ri < length rs" "map_of fc (rs ! ri) = Some free" "free \<le> 0"
  shows "capacity_while b dn t rs c (ms, ri, cov, fc)
         = capacity_while b dn t rs c (ms, ri + 1, cov, fc)"
  by (subst capacity_while.simps) (simp only: assms if_True option.case simp_thms)

lemma capacity_while_take:
  assumes "0 < c \<and> cov < t \<and> ri < length rs" "map_of fc (rs ! ri) = Some free"
    "\<not> free \<le> 0"
  shows "capacity_while b dn t rs c (ms, ri, cov, fc)
         = capacity_while b dn t rs (c - 1) (ms @ [mk_move b dn (rs ! ri)], ri + 1, cov + 1,
             AList.update (rs ! ri) (free - 1) fc)"
  by (subst capacity_while.simps) (simp only: assms if_True if_False option.case simp_thms)

lemma capacity_while_new:
  assumes "set rs \<subseteq> fst ` set fc"
  shows "\<exists>ms' ri' cov' fc' new.
           capacity_while b dn t rs c (ms, ri, cov, fc) = Inr (ms', ri', cov', fc')
           \<and> ms' = ms @ new \<and> cap_step b rs cov fc cov' fc' new \<and> length new \<le> c
           \<and> (\<forall>l. from_count new l = (if l = dn then length new else 0))
           \<and> (cov \<le> t \<longrightarrow> cov' \<le> t)"
  using assms
proof (induction b dn t rs c "(ms, ri, cov, fc)" arbitrary: ms ri cov fc
    rule: capacity_while.induct)
  case (1 b dn t rs c ms ri cov fc)
  show ?case
  proof (cases "c > 0 \<and> cov < t \<and> ri < length rs")
    case False
    then have "capacity_while b dn t rs c (ms, ri, cov, fc) = Inr (ms, ri, cov, fc)"
      by (rule capacity_while_stop)
    then show ?thesis using cap_step_refl [of b rs cov fc]
      by (intro exI [of _ ms] exI [of _ ri] exI [of _ cov] exI [of _ fc] exI [of _ "[]"]) simp
  next
    case True
    then have "rs ! ri \<in> fst ` set fc" using "1.prems" by auto
    then obtain free where free: "map_of fc (rs ! ri) = Some free"
      by (metis domD dom_map_of_conv_image_fst)
    show ?thesis
    proof (cases "free \<le> 0")
      case le: True
      have eq: "capacity_while b dn t rs c (ms, ri, cov, fc)
                = capacity_while b dn t rs c (ms, ri + 1, cov, fc)"
        using True free le by (rule capacity_while_skip)
      from "1.hyps"(1) [OF True free le "1.prems"] show ?thesis unfolding eq .
    next
      case gt: False
      let ?fc = "AList.update (rs ! ri) (free - 1) fc"
      let ?m = "mk_move b dn (rs ! ri)"
      have eq: "capacity_while b dn t rs c (ms, ri, cov, fc)
                = capacity_while b dn t rs (c - 1) (ms @ [?m], ri + 1, cov + 1, ?fc)"
        using True free gt by (rule capacity_while_take)
      have one: "cap_step b rs cov fc (cov + 1) ?fc [?m]"
        using True free gt by (intro cap_step_one) auto
      then have "map fst ?fc = map fst fc" by (simp add: cap_step_def)
      then have "fst ` set ?fc = fst ` set fc" by (metis list.set_map)
      with "1.prems" have keys: "set rs \<subseteq> fst ` set ?fc" by simp
      from "1.hyps"(2) [OF True free gt keys]
      obtain ms' ri' cov' fc' new where
        r: "capacity_while b dn t rs (c - 1) (ms @ [?m], ri + 1, cov + 1, ?fc)
              = Inr (ms', ri', cov', fc')"
        "ms' = (ms @ [?m]) @ new" "cap_step b rs (cov + 1) ?fc cov' fc' new"
        "length new \<le> c - 1" "\<forall>l. from_count new l = (if l = dn then length new else 0)"
        "cov + 1 \<le> t \<longrightarrow> cov' \<le> t" by blast
      let ?new = "?m # new"
      have "capacity_while b dn t rs c (ms, ri, cov, fc) = Inr (ms', ri', cov', fc')"
        using eq r(1) by simp
      moreover have "ms' = ms @ ?new" using r(2) by simp
      moreover have "cap_step b rs cov fc cov' fc' ?new"
        using cap_step_trans [OF one r(3)] by simp
      moreover have "length ?new \<le> c" using r(4) True by auto
      moreover have "\<forall>l. from_count ?new l = (if l = dn then length ?new else 0)"
        using r(5) by simp
      moreover have "cov \<le> t \<longrightarrow> cov' \<le> t" using r(6) True by simp
      ultimately show ?thesis by blast
    qed
  qed
qed

lemma capacity_while_dests:
  "capacity_while b dn t rs c (ms, ri, cov, fc) = Inr (ms', ri', cov', fc') \<Longrightarrow> distinct rs \<Longrightarrow>
     dests_inv rs ri ms \<Longrightarrow> dests_inv rs ri' ms'"
proof (induction b dn t rs c "(ms, ri, cov, fc)" arbitrary: ms ri cov fc
    rule: capacity_while.induct)
  case (1 b dn t rs c ms ri cov fc)
  show ?case
  proof (cases "c > 0 \<and> cov < t \<and> ri < length rs")
    case False
    with "1.prems"(1) have "ms' = ms" "ri' = ri"
      by (simp_all add: capacity_while_stop)
    with "1.prems"(3) show ?thesis by simp
  next
    case True
    show ?thesis
    proof (cases "map_of fc (rs ! ri)")
      case None
      with True "1.prems"(1) show ?thesis
        by (simp add: capacity_while_None)
    next
      case (Some free)
      show ?thesis
      proof (cases "free \<le> 0")
        case le: True
        from "1.prems"(1) True Some le
        have run: "capacity_while b dn t rs c (ms, ri + 1, cov, fc) = Inr (ms', ri', cov', fc')"
          by (simp add: capacity_while_skip)
        have "dests_inv rs (ri + 1) ms" using dests_inv_skip [OF "1.prems"(3)] by simp
        from "1.hyps"(1) [OF True Some le run "1.prems"(2) this] show ?thesis .
      next
        case gt: False
        from "1.prems"(1) True Some gt
        have run: "capacity_while b dn t rs (c - 1)
            (ms @ [mk_move b dn (rs ! ri)], ri + 1, cov + 1,
             AList.update (rs ! ri) (free - 1) fc) = Inr (ms', ri', cov', fc')"
          by (simp add: capacity_while_take)
        have "dests_inv rs (ri + 1) (ms @ [mk_move b dn (rs ! ri)])"
          using dests_inv_step [OF "1.prems"(2) _ "1.prems"(3)] True by simp
        from "1.hyps"(2) [OF True Some gt run "1.prems"(2) this] show ?thesis .
      qed
    qed
  qed
qed

lemma capacity_for_new:
  assumes "set rs \<subseteq> fst ` set fc"
  shows "\<exists>ms' ri' cov' fc' new.
           capacity_for b t rs ds (ms, ri, cov, fc) = Inr (ms', ri', cov', fc')
           \<and> ms' = ms @ new \<and> cap_step b rs cov fc cov' fc' new
           \<and> (\<forall>l. from_count new l \<le> spare ds l) \<and> (cov \<le> t \<longrightarrow> cov' \<le> t)"
  using assms
proof (induction ds arbitrary: ms ri cov fc)
  case Nil
  show ?case using cap_step_refl [of b rs cov fc]
    by (intro exI [of _ ms] exI [of _ ri] exI [of _ cov] exI [of _ fc] exI [of _ "[]"]) simp
next
  case (Cons h ds)
  from capacity_while_new [OF Cons.prems, of b "library_id h" t "quantity h - 1" ms ri cov]
  obtain ms1 ri1 cov1 fc1 new1 where
    w: "capacity_while b (library_id h) t rs (quantity h - 1) (ms, ri, cov, fc)
          = Inr (ms1, ri1, cov1, fc1)"
    and n1: "ms1 = ms @ new1" "cap_step b rs cov fc cov1 fc1 new1"
      "length new1 \<le> quantity h - 1"
      "\<forall>l. from_count new1 l = (if l = library_id h then length new1 else 0)"
      "cov \<le> t \<longrightarrow> cov1 \<le> t" by blast
  have le1: "from_count new1 l \<le> (if library_id h = l then quantity h - 1 else 0)" for l
    using n1(3,4) by auto
  show ?case
  proof (cases "cov1 \<ge> t")
    case True
    with w have "capacity_for b t rs (h # ds) (ms, ri, cov, fc) = Inr (ms1, ri1, cov1, fc1)"
      by simp
    moreover have "\<forall>l. from_count new1 l \<le> spare (h # ds) l"
    proof
      fix l
      from le1 [of l] show "from_count new1 l \<le> spare (h # ds) l"
        by (simp split: if_splits)
    qed
    ultimately show ?thesis using n1 by blast
  next
    case False
    with w have eq: "capacity_for b t rs (h # ds) (ms, ri, cov, fc)
                     = capacity_for b t rs ds (ms1, ri1, cov1, fc1)" by simp
    from n1(2) have "map fst fc1 = map fst fc" by (simp add: cap_step_def)
    then have "fst ` set fc1 = fst ` set fc" by (metis list.set_map)
    with Cons.prems have "set rs \<subseteq> fst ` set fc1" by simp
    from Cons.IH [OF this, of ms1 ri1 cov1]
    obtain ms' ri' cov' fc' new2 where
      r: "capacity_for b t rs ds (ms1, ri1, cov1, fc1) = Inr (ms', ri', cov', fc')"
      and n2: "ms' = ms1 @ new2" "cap_step b rs cov1 fc1 cov' fc' new2"
        "\<forall>l. from_count new2 l \<le> spare ds l" "cov1 \<le> t \<longrightarrow> cov' \<le> t" by blast
    have "capacity_for b t rs (h # ds) (ms, ri, cov, fc) = Inr (ms', ri', cov', fc')"
      using eq r by simp
    moreover have "ms' = ms @ (new1 @ new2)" using n1(1) n2(1) by simp
    moreover have "cap_step b rs cov fc cov' fc' (new1 @ new2)"
      using cap_step_trans [OF n1(2) n2(2)] .
    moreover have "\<forall>l. from_count (new1 @ new2) l \<le> spare (h # ds) l"
    proof
      fix l
      from le1 [of l] n2(3) show "from_count (new1 @ new2) l \<le> spare (h # ds) l"
        by (simp add: add_mono)
    qed
    moreover have "cov \<le> t \<longrightarrow> cov' \<le> t" using n1(5) n2(4) by simp
    ultimately show ?thesis by blast
  qed
qed

lemma capacity_for_dests:
  "capacity_for b t rs ds (ms, ri, cov, fc) = Inr (ms', ri', cov', fc') \<Longrightarrow> distinct rs \<Longrightarrow>
     dests_inv rs ri ms \<Longrightarrow> dests_inv rs ri' ms'"
proof (induction ds arbitrary: ms ri cov fc)
  case Nil
  then show ?case by simp
next
  case (Cons h ds)
  show ?case
  proof (cases "capacity_while b (library_id h) t rs (quantity h - 1) (ms, ri, cov, fc)")
    case (Inl e)
    with Cons.prems(1) show ?thesis by simp
  next
    case (Inr s1)
    obtain ms1 ri1 cov1 fc1 where s1: "s1 = (ms1, ri1, cov1, fc1)" by (cases s1)
    from capacity_while_dests [OF Inr [unfolded s1] Cons.prems(2,3)]
    have i1: "dests_inv rs ri1 ms1" .
    show ?thesis
    proof (cases "cov1 \<ge> t")
      case True
      with Cons.prems(1) Inr s1 i1 show ?thesis by auto
    next
      case False
      with Cons.prems(1) Inr s1
      have "capacity_for b t rs ds (ms1, ri1, cov1, fc1) = Inr (ms', ri', cov', fc')" by simp
      from Cons.IH [OF this Cons.prems(2) i1] show ?thesis .
    qed
  qed
qed

subsection \<open>Donors and recipients\<close>

lemma spare_insort_key: "spare (insort_key f x xs) l = spare (x # xs) l"
  by (induction xs) auto

lemma spare_sort_key: "spare (sort_key f xs) l = spare xs l"
  by (induction xs) (auto simp: spare_insort_key)

lemma spare_donors_le:
  "distinct (map row_key tbl) \<Longrightarrow>
     spare (filter (\<lambda>h. quantity h > 1) (filter (\<lambda>h. book_id h = b) tbl)) l
       \<le> qty tbl l b - 1"
proof (induction tbl)
  case Nil
  then show ?case by simp
next
  case (Cons r tbl)
  then have ih: "spare (filter (\<lambda>h. quantity h > 1) (filter (\<lambda>h. book_id h = b) tbl)) l
       \<le> qty tbl l b - 1" by simp
  show ?case
  proof (cases "row_key r = (l, b)")
    case True
    with Cons.prems have "(l, b) \<notin> row_key ` set tbl" by auto
    then have "qty tbl l b = 0" by (rule qty_notin)
    with ih True show ?thesis by (auto simp: qty_Cons row_key_def)
  next
    case False
    with ih show ?thesis by (auto simp: qty_Cons row_key_def)
  qed
qed

lemma spare_donors_of:
  "distinct (map row_key (library_books d)) \<Longrightarrow>
     spare (donors_of (holdings_of d b)) l \<le> qty (library_books d) l b - 1"
  unfolding donors_of_def holdings_of_def spare_sort_key by (rule spare_donors_le)

lemma qty_pos_iff:
  "(0 < qty (library_books d) l b) = (l \<in> set (has_of (holdings_of d b)))"
proof -
  have "(0 < qty tbl l b)
        = (l \<in> library_id ` {h \<in> set tbl. book_id h = b \<and> 0 < quantity h})" for tbl
    by (induction tbl) (auto simp: qty_Cons row_key_def)
  then show ?thesis by (auto simp: has_of_def holdings_of_def)
qed

subsection \<open>The plan of one book\<close>

lemma book_plan_ok_Nil [simp]: "book_plan_ok d n b []"
  by (simp add: book_plan_ok_def)

lemma book_dests_ok_Nil [simp]: "book_dests_ok d b []"
  by (simp add: book_dests_ok_def)

lemma fc_rel_refl [simp]: "fc_rel fc fc []"
  by (simp add: fc_rel_def)

lemma book_plan_okI:
  assumes "distinct (map row_key (library_books d))"
    and "unit_moves b rs new"
    and "\<forall>l. from_count new l \<le> spare (donors_of (holdings_of d b)) l"
    and "coverage d b + length new \<le> min n (book_total d b)"
  shows "book_plan_ok d n b new"
proof -
  have "from_count new l \<le> qty (library_books d) l b - 1" for l
    using assms(3) spare_donors_of [OF assms(1), of b l] by (meson le_trans)
  with assms(2,4) show ?thesis by (auto simp: book_plan_ok_def unit_moves_def)
qed

lemma book_dests_okI:
  assumes "dests_inv rs ri new" "set rs \<inter> set (has_of (holdings_of d b)) = {}"
  shows "book_dests_ok d b new"
proof -
  have "qty (library_books d) (to_library_id m) b = 0" if "m \<in> set new" for m
  proof -
    from that assms(1) have "to_library_id m \<in> set rs"
      by (auto simp: dests_inv_def dest: in_set_takeD)
    with assms(2) have "to_library_id m \<notin> set (has_of (holdings_of d b))" by auto
    with qty_pos_iff [of d "to_library_id m" b] show ?thesis by simp
  qed
  with assms(1) show ?thesis by (simp add: book_dests_ok_def dests_inv_def)
qed

lemma dests_inv_Nil [simp]: "dests_inv rs 0 []"
  by (simp add: dests_inv_def)

lemma base_build_unfold:
  "base_build_plan_for_book sd d b n =
     (if book_total d b = 0 then []
      else if min n (book_total d b) \<le> coverage d b then []
      else fst (base_for b (min n (book_total d b))
                  (sd (map lib_id (libraries d)) (has_of (holdings_of d b)))
                  (donors_of (holdings_of d b)) ([], 0, coverage d b)))"
  by (simp add: base_build_plan_for_book_def Let_def book_total_def coverage_def)

lemma base_build_ok:
  assumes "distinct (map row_key (library_books d))"
  shows "book_plan_ok d n b (base_build_plan_for_book sd d b n)"
proof (cases "book_total d b = 0 \<or> min n (book_total d b) \<le> coverage d b")
  case True
  then show ?thesis by (auto simp: base_build_unfold)
next
  case False
  let ?rs = "sd (map lib_id (libraries d)) (has_of (holdings_of d b))"
  let ?t = "min n (book_total d b)"
  obtain ms' ri' cov' where
    f: "base_for b ?t ?rs (donors_of (holdings_of d b)) ([], 0, coverage d b) = (ms', ri', cov')"
    by (cases "base_for b ?t ?rs (donors_of (holdings_of d b)) ([], 0, coverage d b)")
  from base_for_new [OF f] False have "unit_moves b ?rs ms'"
    "\<forall>l. from_count ms' l \<le> spare (donors_of (holdings_of d b)) l"
    "coverage d b + length ms' \<le> ?t" by auto
  from book_plan_okI [OF assms this] f False show ?thesis
    by (simp add: base_build_unfold)
qed

lemma base_build_dests:
  assumes "set_difference_order sd"
  shows "book_dests_ok d b (base_build_plan_for_book sd d b n)"
proof (cases "book_total d b = 0 \<or> min n (book_total d b) \<le> coverage d b")
  case True
  then show ?thesis by (auto simp: base_build_unfold)
next
  case False
  let ?rs = "sd (map lib_id (libraries d)) (has_of (holdings_of d b))"
  let ?t = "min n (book_total d b)"
  obtain ms' ri' cov' where
    f: "base_for b ?t ?rs (donors_of (holdings_of d b)) ([], 0, coverage d b) = (ms', ri', cov')"
    by (cases "base_for b ?t ?rs (donors_of (holdings_of d b)) ([], 0, coverage d b)")
  from assms have rs: "distinct ?rs" "set ?rs \<inter> set (has_of (holdings_of d b)) = {}"
    by (auto simp: set_difference_order_def)
  from base_for_dests [OF f rs(1)] have "dests_inv ?rs ri' ms'" by simp
  from book_dests_okI [OF this rs(2)] f False show ?thesis
    by (simp add: base_build_unfold)
qed

lemma capacity_build_unfold:
  "capacity_build_plan_for_book sd m d b n =
     (if book_total d b = 0 then Inr ([], m\<lparr>free_capacity := eff_fc m d\<rparr>)
      else if min n (book_total d b) \<le> coverage d b then Inr ([], m\<lparr>free_capacity := eff_fc m d\<rparr>)
      else (case capacity_for b (min n (book_total d b))
                   (filter (\<lambda>lid. 0 < fcget (eff_fc m d) lid)
                      (sd (map fst (eff_fc m d)) (has_of (holdings_of d b))))
                   (donors_of (holdings_of d b)) ([], 0, coverage d b, eff_fc m d) of
              Inl e \<Rightarrow> Inl e
            | Inr (ms, ri, covered', fc') \<Rightarrow>
                Inr (ms, m\<lparr>free_capacity := eff_fc m d, free_capacity := fc'\<rparr>)))"
  unfolding capacity_build_plan_for_book_def Let_def book_total_def coverage_def eff_fc_def
    fcget_def ..

lemma capacity_build_props:
  "\<exists>new fc'. capacity_build_plan_for_book sd m d b n = Inr (new, m\<lparr>free_capacity := fc'\<rparr>)
      \<and> fc_rel (eff_fc m d) fc' new
      \<and> (distinct (map row_key (library_books d)) \<longrightarrow> book_plan_ok d n b new)
      \<and> (set_difference_order sd \<longrightarrow> book_dests_ok d b new)"
proof (cases "book_total d b = 0 \<or> min n (book_total d b) \<le> coverage d b")
  case True
  then have "capacity_build_plan_for_book sd m d b n = Inr ([], m\<lparr>free_capacity := eff_fc m d\<rparr>)"
    by (auto simp: capacity_build_unfold)
  then show ?thesis
    by (intro exI [of _ "[]"] exI [of _ "eff_fc m d"]) simp
next
  case False
  let ?fc = "eff_fc m d"
  let ?all = "sd (map fst ?fc) (has_of (holdings_of d b))"
  let ?rs = "filter (\<lambda>lid. 0 < fcget ?fc lid) ?all"
  let ?t = "min n (book_total d b)"
  let ?ds = "donors_of (holdings_of d b)"
  have keys: "set ?rs \<subseteq> fst ` set ?fc"
  proof
    fix l assume "l \<in> set ?rs"
    then have "0 < fcget ?fc l" by simp
    then obtain v where "map_of ?fc l = Some v" by (auto simp: fcget_def split: option.splits)
    then show "l \<in> fst ` set ?fc" by (metis domI dom_map_of_conv_image_fst)
  qed
  from capacity_for_new [OF keys, of b ?t ?ds "[]" 0 "coverage d b"]
  obtain ms' ri' cov' fc' where
    f: "capacity_for b ?t ?rs ?ds ([], 0, coverage d b, ?fc) = Inr (ms', ri', cov', fc')"
    and n: "cap_step b ?rs (coverage d b) ?fc cov' fc' ms'"
      "\<forall>l. from_count ms' l \<le> spare ?ds l" "coverage d b \<le> ?t \<longrightarrow> cov' \<le> ?t" by auto
  have run: "capacity_build_plan_for_book sd m d b n = Inr (ms', m\<lparr>free_capacity := fc'\<rparr>)"
    using False f by (simp add: capacity_build_unfold)
  have rel: "fc_rel ?fc fc' ms'" using n(1) by (simp add: cap_step_def fc_rel_def)
  have ok: "book_plan_ok d n b ms'" if "distinct (map row_key (library_books d))"
  proof (rule book_plan_okI [OF that _ n(2)])
    show "unit_moves b ?rs ms'" using n(1) by (simp add: cap_step_def)
    from False have "coverage d b \<le> ?t" by linarith
    with n(3) have "cov' \<le> ?t" by blast
    moreover from n(1) have "cov' = coverage d b + length ms'" by (simp add: cap_step_def)
    ultimately show "coverage d b + length ms' \<le> ?t" by simp
  qed
  have dests: "book_dests_ok d b ms'" if "set_difference_order sd"
  proof -
    from that have rs: "distinct ?rs" "set ?rs \<inter> set (has_of (holdings_of d b)) = {}"
      by (auto simp: set_difference_order_def)
    from capacity_for_dests [OF f rs(1)] have "dests_inv ?rs ri' ms'" by simp
    from book_dests_okI [OF this rs(2)] show ?thesis .
  qed
  from run rel ok dests show ?thesis by blast
qed

subsection \<open>Aggregates as sums of the quantities held\<close>

lemma sum_list_filter_split:
  assumes "finite K" "\<forall>x \<in> set xs. P x \<longrightarrow> g x \<in> K"
  shows "sum_list (map f (filter P xs))
         = (\<Sum>k \<in> K. sum_list (map f (filter (\<lambda>x. g x = k \<and> P x) xs)))"
  using assms(2)
proof (induction xs)
  case Nil
  then show ?case by simp
next
  case (Cons x xs)
  then have ih: "sum_list (map f (filter P xs))
         = (\<Sum>k \<in> K. sum_list (map f (filter (\<lambda>x. g x = k \<and> P x) xs)))" by simp
  show ?case
  proof (cases "P x")
    case False
    with ih show ?thesis by simp
  next
    case True
    with Cons.prems have inK: "g x \<in> K" by simp
    have "(\<Sum>k \<in> K. sum_list (map f (filter (\<lambda>y. g y = k \<and> P y) (x # xs))))
          = (\<Sum>k \<in> K. (if g x = k then f x else 0)
                + sum_list (map f (filter (\<lambda>y. g y = k \<and> P y) xs)))"
      using True by (intro sum.cong) auto
    also have "\<dots> = (\<Sum>k \<in> K. if g x = k then f x else 0)
                + (\<Sum>k \<in> K. sum_list (map f (filter (\<lambda>y. g y = k \<and> P y) xs)))"
      by (rule sum.distrib)
    also have "(\<Sum>k \<in> K. if g x = k then f x else 0) = f x"
      using assms(1) inK by (simp add: sum.delta')
    finally show ?thesis using True ih by simp
  qed
qed

lemma book_total_as_sum:
  assumes "finite L" "library_id ` set (library_books d) \<subseteq> L"
  shows "book_total d b = (\<Sum>l \<in> L. qty (library_books d) l b)"
proof -
  have "sum_list (map quantity (filter (\<lambda>h. book_id h = b) (library_books d)))
        = (\<Sum>l \<in> L. sum_list (map quantity
              (filter (\<lambda>h. library_id h = l \<and> book_id h = b) (library_books d))))"
    using assms by (intro sum_list_filter_split) auto
  then show ?thesis by (simp add: book_total_def holdings_of_def qty_def)
qed

lemma used_as_sum:
  assumes "finite B" "book_id ` set (library_books d) \<subseteq> B"
  shows "used_capacity d l = (\<Sum>b \<in> B. qty (library_books d) l b)"
proof -
  have "sum_list (map quantity (filter (\<lambda>h. library_id h = l) (library_books d)))
        = (\<Sum>b \<in> B. sum_list (map quantity
              (filter (\<lambda>h. book_id h = b \<and> library_id h = l) (library_books d))))"
    using assms by (intro sum_list_filter_split) auto
  then show ?thesis by (simp add: used_capacity_def qty_def conj_commute)
qed

lemma in_qty_sum_libs:
  assumes "finite L" "to_library_id ` set ms \<subseteq> L"
  shows "(\<Sum>l \<in> L. in_qty ms l b) = sum_list (map m_quantity (book_moves ms b))"
proof -
  have "sum_list (map m_quantity (filter (\<lambda>m. m_book_id m = b) ms))
        = (\<Sum>l \<in> L. sum_list (map m_quantity
              (filter (\<lambda>m. to_library_id m = l \<and> m_book_id m = b) ms)))"
    using assms by (intro sum_list_filter_split) auto
  then show ?thesis by (simp add: in_qty_def book_moves_def)
qed

lemma out_qty_sum_libs:
  assumes "finite L" "from_library_id ` set ms \<subseteq> L"
  shows "(\<Sum>l \<in> L. out_qty ms l b) = sum_list (map m_quantity (book_moves ms b))"
proof -
  have "sum_list (map m_quantity (filter (\<lambda>m. m_book_id m = b) ms))
        = (\<Sum>l \<in> L. sum_list (map m_quantity
              (filter (\<lambda>m. from_library_id m = l \<and> m_book_id m = b) ms)))"
    using assms by (intro sum_list_filter_split) auto
  then show ?thesis by (simp add: out_qty_def book_moves_def)
qed

lemma in_qty_sum_books:
  assumes "finite B" "m_book_id ` set ms \<subseteq> B"
  shows "(\<Sum>b \<in> B. in_qty ms l b)
         = sum_list (map m_quantity (filter (\<lambda>m. to_library_id m = l) ms))"
proof -
  have "sum_list (map m_quantity (filter (\<lambda>m. to_library_id m = l) ms))
        = (\<Sum>b \<in> B. sum_list (map m_quantity
              (filter (\<lambda>m. m_book_id m = b \<and> to_library_id m = l) ms)))"
    using assms by (intro sum_list_filter_split) auto
  then show ?thesis by (simp add: in_qty_def conj_commute)
qed

lemma coverage_card: "coverage d b = card {l. 0 < qty (library_books d) l b}"
proof -
  have "{l. 0 < qty (library_books d) l b} = set (has_of (holdings_of d b))"
    by (auto simp: qty_pos_iff)
  then show ?thesis by (simp add: coverage_def length_remdups_card_conv)
qed

lemma finite_holders: "finite {l. 0 < qty (library_books (d :: store)) l b}"
proof -
  have "{l. 0 < qty (library_books d) l b} = set (has_of (holdings_of d b))"
    by (auto simp: qty_pos_iff)
  then show ?thesis by simp
qed

lemma coverage_le_total: "coverage d b \<le> book_total d b"
proof -
  have "length (filter (\<lambda>h. 0 < quantity h) hs) \<le> sum_list (map quantity hs)"
    for hs :: "LibraryBook list"
    by (induction hs) auto
  moreover have "coverage d b \<le> length (filter (\<lambda>h. 0 < quantity h) (holdings_of d b))"
    unfolding coverage_def has_of_def
    by (metis length_map length_remdups_leq)
  ultimately show ?thesis unfolding book_total_def by (meson le_trans)
qed

lemma coverage_le_libraries:
  assumes "wf_store d"
  shows "coverage d b \<le> length (libraries d)"
proof -
  have "set (has_of (holdings_of d b)) \<subseteq> set (map lib_id (libraries d))"
    using assms by (auto simp: wf_store_def has_of_def holdings_of_def)
  then have "card (set (has_of (holdings_of d b))) \<le> card (set (map lib_id (libraries d)))"
    by (intro card_mono) auto
  also have "\<dots> \<le> length (map lib_id (libraries d))" by (rule card_length)
  finally show ?thesis by (simp add: coverage_def length_remdups_card_conv)
qed

subsection \<open>The loop over the candidate books\<close>

lemma fc_rel_trans:
  assumes "fc_rel fc fc1 new1" "fc_rel fc1 fc2 new2"
  shows "fc_rel fc fc2 (new1 @ new2)"
proof -
  have "fcget fc2 l + int (to_count (new1 @ new2) l) = fcget fc l" for l
  proof -
    from assms(1) have "fcget fc1 l + int (to_count new1 l) = fcget fc l"
      by (simp add: fc_rel_def)
    moreover from assms(2) have "fcget fc2 l + int (to_count new2 l) = fcget fc1 l"
      by (simp add: fc_rel_def)
    ultimately show ?thesis by simp
  qed
  with assms show ?thesis by (simp add: fc_rel_def)
qed

lemma eff_fc_after:
  assumes "fc_rel (eff_fc m d) fc' new"
  shows "eff_fc (m\<lparr>free_capacity := fc'\<rparr>) d = fc'"
proof (cases "fc' = []")
  case False
  then show ?thesis by (simp add: eff_fc_def)
next
  case True
  with assms have "eff_fc m d = []" by (simp add: fc_rel_def)
  then have "compute_free_capacity d = []" by (auto simp: eff_fc_def split: if_splits)
  with True show ?thesis by (simp add: eff_fc_def)
qed

lemma build_props:
  "\<exists>new fc'. build_plan_for_book sd m d b n = Inr (new, m\<lparr>free_capacity := fc'\<rparr>)
      \<and> (kind m = Base \<longrightarrow> fc' = free_capacity m)
      \<and> (kind m \<noteq> Base \<longrightarrow> fc_rel (eff_fc m d) fc' new)
      \<and> (distinct (map row_key (library_books d)) \<longrightarrow> book_plan_ok d n b new)
      \<and> (set_difference_order sd \<longrightarrow> book_dests_ok d b new)"
proof (cases "kind m = Base")
  case True
  then have "build_plan_for_book sd m d b n
             = Inr (base_build_plan_for_book sd d b n, m\<lparr>free_capacity := free_capacity m\<rparr>)"
    by (simp add: build_plan_for_book_def)
  with True base_build_ok [of d n b sd] base_build_dests [of sd d b n] show ?thesis by blast
next
  case False
  then have "build_plan_for_book sd m d b n = capacity_build_plan_for_book sd m d b n"
    by (cases "kind m") (simp_all add: build_plan_for_book_def)
  with False capacity_build_props [of sd m d b n] show ?thesis by auto
qed

lemma book_moves_append [simp]: "book_moves (xs @ ys) b = book_moves xs b @ book_moves ys b"
  by (simp add: book_moves_def)

lemma book_moves_Nil [simp]: "book_moves [] b = []"
  by (simp add: book_moves_def)

lemma book_moves_same:
  "\<forall>m \<in> set new. m_book_id m = b \<Longrightarrow> book_moves new b' = (if b' = b then new else [])"
  by (auto simp: book_moves_def filter_empty_conv intro: filter_True)

lemma plan_loop_props:
  assumes "distinct bs" "distinct (map row_key (library_books d))"
  shows "\<exists>new fc'. plan_loop sd d n bs (ms0, c0, m0)
             = Inr (ms0 @ new, c0 + length bs, m0\<lparr>free_capacity := fc'\<rparr>)
      \<and> (kind m0 = Base \<longrightarrow> fc' = free_capacity m0)
      \<and> (kind m0 \<noteq> Base \<longrightarrow> fc_rel (eff_fc m0 d) (eff_fc (m0\<lparr>free_capacity := fc'\<rparr>) d) new)
      \<and> (\<forall>b. book_plan_ok d n b (book_moves new b))
      \<and> (set_difference_order sd \<longrightarrow> (\<forall>b. book_dests_ok d b (book_moves new b)))
      \<and> (\<forall>b. b \<notin> set bs \<longrightarrow> book_moves new b = [])"
  using assms(1)
proof (induction bs arbitrary: ms0 c0 m0)
  case Nil
  have "plan_loop sd d n [] (ms0, c0, m0)
        = Inr (ms0 @ [], c0 + length ([] :: int list), m0\<lparr>free_capacity := free_capacity m0\<rparr>)"
    by simp
  then show ?case
    by (intro exI [of _ "[]"] exI [of _ "free_capacity m0"]) simp
next
  case (Cons b bs)
  from build_props [of sd m0 d b n] assms(2) obtain new1 fc1 where
    b1: "build_plan_for_book sd m0 d b n = Inr (new1, m0\<lparr>free_capacity := fc1\<rparr>)"
    "kind m0 = Base \<longrightarrow> fc1 = free_capacity m0"
    "kind m0 \<noteq> Base \<longrightarrow> fc_rel (eff_fc m0 d) fc1 new1"
    "book_plan_ok d n b new1"
    "set_difference_order sd \<longrightarrow> book_dests_ok d b new1" by blast
  let ?m1 = "m0\<lparr>free_capacity := fc1\<rparr>"
  from Cons.prems have dbs: "distinct bs" and bnew: "b \<notin> set bs" by simp_all
  from Cons.IH [OF dbs, of "ms0 @ new1" "c0 + 1" ?m1] obtain new2 fc2 where
    r: "plan_loop sd d n bs (ms0 @ new1, c0 + 1, ?m1)
          = Inr ((ms0 @ new1) @ new2, c0 + 1 + length bs, ?m1\<lparr>free_capacity := fc2\<rparr>)"
    "kind ?m1 = Base \<longrightarrow> fc2 = free_capacity ?m1"
    "kind ?m1 \<noteq> Base \<longrightarrow> fc_rel (eff_fc ?m1 d) (eff_fc (?m1\<lparr>free_capacity := fc2\<rparr>) d) new2"
    "\<forall>b. book_plan_ok d n b (book_moves new2 b)"
    "set_difference_order sd \<longrightarrow> (\<forall>b. book_dests_ok d b (book_moves new2 b))"
    "\<forall>b. b \<notin> set bs \<longrightarrow> book_moves new2 b = []" by blast
  from b1(4) have same: "book_moves new1 b' = (if b' = b then new1 else [])" for b'
    by (intro book_moves_same) (simp add: book_plan_ok_def)
  have split: "book_moves (new1 @ new2) b' = (if b' = b then new1 else book_moves new2 b')" for b'
    using same [of b'] r(6) bnew by auto
  have "plan_loop sd d n (b # bs) (ms0, c0, m0)
        = Inr (ms0 @ (new1 @ new2), c0 + length (b # bs), m0\<lparr>free_capacity := fc2\<rparr>)"
    using b1(1) r(1) by simp
  moreover have "kind m0 = Base \<longrightarrow> fc2 = free_capacity m0" using b1(2) r(2) by simp
  moreover have "kind m0 \<noteq> Base \<longrightarrow>
      fc_rel (eff_fc m0 d) (eff_fc (m0\<lparr>free_capacity := fc2\<rparr>) d) (new1 @ new2)"
  proof
    assume nb: "kind m0 \<noteq> Base"
    with b1(3) have rel1: "fc_rel (eff_fc m0 d) fc1 new1" by simp
    from eff_fc_after [OF rel1] have "eff_fc ?m1 d = fc1" .
    with r(3) nb have "fc_rel fc1 (eff_fc (m0\<lparr>free_capacity := fc2\<rparr>) d) new2" by simp
    from fc_rel_trans [OF rel1 this]
    show "fc_rel (eff_fc m0 d) (eff_fc (m0\<lparr>free_capacity := fc2\<rparr>) d) (new1 @ new2)" .
  qed
  moreover have "\<forall>b'. book_plan_ok d n b' (book_moves (new1 @ new2) b')"
    unfolding split using b1(4) r(4) by simp
  moreover have "set_difference_order sd \<longrightarrow>
      (\<forall>b'. book_dests_ok d b' (book_moves (new1 @ new2) b'))"
    unfolding split using b1(5) r(5) by simp
  moreover have "\<forall>b'. b' \<notin> set (b # bs) \<longrightarrow> book_moves (new1 @ new2) b' = []"
    unfolding split using r(6) by simp
  ultimately show ?case by blast
qed

subsection \<open>Candidates and their order\<close>

lemma distinct_candidate_book_ids: "distinct (candidate_book_ids d n)"
  by (simp add: candidate_book_ids_def)

lemma candidate_book_ids_subset:
  "set (candidate_book_ids d n) \<subseteq> book_id ` set (library_books d)"
  by (auto simp: candidate_book_ids_def)

lemma distinct_map_insort_key:
  "distinct (map g (insort_key f x xs)) = (g x \<notin> g ` set xs \<and> distinct (map g xs))"
  by (induction xs) (auto simp: set_insort_key)

lemma distinct_map_sort_key: "distinct (map g (sort_key f xs)) = distinct (map g xs)"
  by (induction xs) (simp_all add: distinct_map_insort_key)

lemma ordered_ids_perm:
  assumes "ordered_ids m d base = Inr ord"
  shows "set ord = set base \<and> distinct ord = distinct base"
proof -
  let ?meta = "book_meta d base"
  let ?keys = "map (book_sort_key m ?meta) base"
  let ?zs = "zip (map projr ?keys) base"
  from assms have ord: "ord = map snd (sort_key fst ?zs)"
    by (simp add: ordered_ids_def Let_def split: if_splits)
  have zs: "map snd ?zs = base" by (simp add: map_snd_zip)
  have "set (map snd (sort_key fst ?zs)) = set (map snd ?zs)"
    unfolding set_map set_sort ..
  moreover have "distinct (map snd (sort_key fst ?zs)) = distinct (map snd ?zs)"
    by (rule distinct_map_sort_key)
  ultimately show ?thesis unfolding ord zs by simp
qed

lemma ordered_ids_total:
  assumes "set base \<subseteq> bk_id ` set (books d)"
  shows "\<exists>ord. ordered_ids m d base = Inr ord"
proof -
  let ?meta = "book_meta d base"
  have "\<not> isl (book_sort_key m ?meta bid)" if "bid \<in> set base" for bid
  proof -
    from that assms obtain bk where "bk \<in> set (books d)" "bk_id bk = bid" by auto
    with that have "bid \<in> fst ` set (rev (map (\<lambda>b. (bk_id b, b))
                      (filter (\<lambda>b. bk_id b \<in> set base) (books d))))"
      by (force simp: image_iff)
    then obtain meta where "?meta bid = Some meta"
      unfolding book_meta_def by (metis domD dom_map_of_conv_image_fst)
    then show ?thesis by (simp add: book_sort_key_def)
  qed
  then show ?thesis by (auto simp: ordered_ids_def Let_def)
qed

subsection \<open>A whole run\<close>

lemma out_qty_book_moves:
  "\<forall>m \<in> set (book_moves ms b). m_quantity m = 1 \<Longrightarrow>
     out_qty ms l b = from_count (book_moves ms b) l"
  by (induction ms) (auto simp: out_qty_def from_count_def book_moves_def)

lemma in_qty_book_moves:
  "\<forall>m \<in> set (book_moves ms b). m_quantity m = 1 \<Longrightarrow>
     in_qty ms l b = to_count (book_moves ms b) l"
  by (induction ms) (auto simp: in_qty_def to_count_def book_moves_def)

lemma out_qty_le:
  assumes "book_plan_ok d n b (book_moves ms b)"
  shows "out_qty ms l b \<le> qty (library_books d) l b - 1"
proof -
  from assms have "out_qty ms l b = from_count (book_moves ms b) l"
    by (intro out_qty_book_moves) (simp add: book_plan_ok_def)
  with assms show ?thesis by (simp add: book_plan_ok_def)
qed

lemma finish_dry:
  "dry_run m \<Longrightarrow> finish d (ms, c, m)
     = Inr (\<lparr>moves = ms, total_moves = length ms, books_considered = c\<rparr>, m, d)"
  by (simp add: finish_def)

lemma finish_apply:
  "\<not> dry_run m \<Longrightarrow> apply_plan ms d = Inr d' \<Longrightarrow> finish d (ms, c, m)
     = Inr (\<lparr>moves = ms, total_moves = length ms, books_considered = c\<rparr>, m, d')"
  by (simp add: finish_def)

lemma loop_then_finish:
  assumes wf: "wf_store d" and dbs: "distinct bs"
  shows "\<exists>ms c fc' d'.
           (case plan_loop sd d (length (libraries d)) bs ([], 0, m) of
              Inl e \<Rightarrow> Inl e | Inr s \<Rightarrow> finish d s)
             = Inr (\<lparr>moves = ms, total_moves = length ms, books_considered = c\<rparr>,
                    m\<lparr>free_capacity := fc'\<rparr>, if dry_run m then d else d')
           \<and> run_ok sd m d ms fc' d'"
proof -
  let ?n = "length (libraries d)"
  from wf have uniq: "distinct (map row_key (library_books d))" by (simp add: wf_store_def)
  from plan_loop_props [OF dbs uniq, of sd ?n "[]" 0 m] obtain ms fc' where
    l: "plan_loop sd d ?n bs ([], 0, m) = Inr (ms, length bs, m\<lparr>free_capacity := fc'\<rparr>)"
    "kind m = Base \<longrightarrow> fc' = free_capacity m"
    "kind m \<noteq> Base \<longrightarrow> fc_rel (eff_fc m d) (eff_fc (m\<lparr>free_capacity := fc'\<rparr>) d) ms"
    "\<forall>b. book_plan_ok d ?n b (book_moves ms b)"
    "set_difference_order sd \<longrightarrow> (\<forall>b. book_dests_ok d b (book_moves ms b))" by auto
  have "out_qty ms l b \<le> qty (library_books d) l b + in_qty ms l b" for l b
    using out_qty_le [of d ?n b ms l] l(4) by (simp add: trans_le_add1)
  from apply_plan_effect [OF uniq this] obtain d' where
    a: "apply_plan ms d = Inr d'" "libraries d' = libraries d" "books d' = books d"
    "distinct (map row_key (library_books d'))"
    "\<forall>l b. qty (library_books d') l b
           = qty (library_books d) l b + in_qty ms l b - out_qty ms l b" by blast
  let ?m = "m\<lparr>free_capacity := fc'\<rparr>"
  have "finish d (ms, length bs, ?m)
        = Inr (\<lparr>moves = ms, total_moves = length ms, books_considered = length bs\<rparr>,
               ?m, if dry_run m then d else d')"
    using finish_dry [of ?m d ms "length bs"] finish_apply [of ?m ms d d' "length bs"] a(1)
    by (cases "dry_run m") simp_all
  with l(1) have "(case plan_loop sd d ?n bs ([], 0, m) of Inl e \<Rightarrow> Inl e | Inr s \<Rightarrow> finish d s)
        = Inr (\<lparr>moves = ms, total_moves = length ms, books_considered = length bs\<rparr>,
               ?m, if dry_run m then d else d')" by simp
  moreover have "run_ok sd m d ms fc' d'"
    unfolding run_ok_def using a l(2-) by simp
  ultimately show ?thesis by blast
qed

lemma rebalance_run:
  assumes wf: "wf_store d"
  shows "\<exists>ms c fc' d'.
           rebalance sd m d
             = Inr (\<lparr>moves = ms, total_moves = length ms, books_considered = c\<rparr>,
                    m\<lparr>free_capacity := fc'\<rparr>, if dry_run m then d else d')
           \<and> run_ok sd m d ms fc' d'"
proof (cases "kind m = Priority")
  case False
  then have "rebalance sd m d
      = (case plan_loop sd d (length (libraries d))
                (candidate_book_ids d (length (libraries d))) ([], 0, m) of
           Inl e \<Rightarrow> Inl e | Inr s \<Rightarrow> finish d s)"
    by (cases "kind m") (simp_all add: rebalance_def base_rebalance_def Let_def)
  with loop_then_finish
    [OF wf distinct_candidate_book_ids [of d "length (libraries d)"], of sd m]
  show ?thesis by simp
next
  case True
  let ?base = "candidate_book_ids d (length (libraries d))"
  have "set ?base \<subseteq> bk_id ` set (books d)"
    using candidate_book_ids_subset [of d "length (libraries d)"] wf
    by (auto simp: wf_store_def)
  from ordered_ids_total [OF this, of m] obtain ord where ord: "ordered_ids m d ?base = Inr ord"
    by blast
  from ordered_ids_perm [OF ord] distinct_candidate_book_ids [of d "length (libraries d)"]
  have "distinct ord" by simp
  from True ord have "rebalance sd m d
      = (case plan_loop sd d (length (libraries d)) ord ([], 0, m) of
           Inl e \<Rightarrow> Inl e | Inr s \<Rightarrow> finish d s)"
    by (simp add: rebalance_def priority_rebalance_def Let_def)
  with loop_then_finish [OF wf \<open>distinct ord\<close>, of sd m] show ?thesis by simp
qed

subsection \<open>What a run does to the aggregates\<close>

lemma run_ok_qty:
  assumes "run_ok sd m d ms fc' d'"
  shows "qty (library_books d') l b + out_qty ms l b = qty (library_books d) l b + in_qty ms l b"
proof -
  from assms have "book_plan_ok d (length (libraries d)) b (book_moves ms b)"
    by (simp add: run_ok_def)
  from out_qty_le [OF this, of l] have "out_qty ms l b \<le> qty (library_books d) l b"
    by simp
  moreover from assms have "qty (library_books d') l b
     = qty (library_books d) l b + in_qty ms l b - out_qty ms l b" by (simp add: run_ok_def)
  ultimately show ?thesis by simp
qed

lemma run_ok_total:
  assumes "run_ok sd m d ms fc' d'"
  shows "book_total d' b = book_total d b"
proof -
  define L where "L = library_id ` set (library_books d) \<union> library_id ` set (library_books d')
                        \<union> from_library_id ` set ms \<union> to_library_id ` set ms"
  have fin: "finite L" by (simp add: L_def)
  have t': "book_total d' b = (\<Sum>l \<in> L. qty (library_books d') l b)"
    using fin by (rule book_total_as_sum) (auto simp: L_def)
  have t: "book_total d b = (\<Sum>l \<in> L. qty (library_books d) l b)"
    using fin by (rule book_total_as_sum) (auto simp: L_def)
  have "book_total d' b + (\<Sum>l \<in> L. out_qty ms l b)
        = (\<Sum>l \<in> L. qty (library_books d') l b + out_qty ms l b)"
    unfolding t' by (simp add: sum.distrib)
  also have "\<dots> = (\<Sum>l \<in> L. qty (library_books d) l b + in_qty ms l b)"
    using run_ok_qty [OF assms] by simp
  also have "\<dots> = book_total d b + (\<Sum>l \<in> L. in_qty ms l b)"
    unfolding t by (simp add: sum.distrib)
  finally have "book_total d' b + (\<Sum>l \<in> L. out_qty ms l b) = book_total d b + (\<Sum>l \<in> L. in_qty ms l b)" .
  moreover have "(\<Sum>l \<in> L. out_qty ms l b) = sum_list (map m_quantity (book_moves ms b))"
    using fin by (rule out_qty_sum_libs) (auto simp: L_def)
  moreover have "(\<Sum>l \<in> L. in_qty ms l b) = sum_list (map m_quantity (book_moves ms b))"
    using fin by (rule in_qty_sum_libs) (auto simp: L_def)
  ultimately show ?thesis by simp
qed

lemma run_ok_holders:
  assumes "run_ok sd m d ms fc' d'" "0 < qty (library_books d) l b"
  shows "0 < qty (library_books d') l b"
proof -
  from assms(1) have "book_plan_ok d (length (libraries d)) b (book_moves ms b)"
    by (simp add: run_ok_def)
  from out_qty_le [OF this, of l] assms(2) have "out_qty ms l b < qty (library_books d) l b"
    by simp
  with run_ok_qty [OF assms(1), of l b] show ?thesis by simp
qed

lemma run_ok_coverage_mono:
  assumes "run_ok sd m d ms fc' d'"
  shows "coverage d b \<le> coverage d' b"
proof -
  have "{l. 0 < qty (library_books d) l b} \<subseteq> {l. 0 < qty (library_books d') l b}"
    using run_ok_holders [OF assms] by auto
  then show ?thesis unfolding coverage_card
    by (intro card_mono finite_holders)
qed

lemma run_ok_coverage_bound:
  assumes "run_ok sd m d ms fc' d'" "wf_store d"
  shows "coverage d' b \<le> min (length (libraries d)) (book_total d b)"
proof (cases "book_moves ms b = []")
  case True
  then have "in_qty ms l b = 0" "out_qty ms l b = 0" for l
    by (simp_all add: in_qty_book_moves out_qty_book_moves)
  with run_ok_qty [OF assms(1)] have "qty (library_books d') l b = qty (library_books d) l b" for l
    by (metis add.right_neutral)
  then have "coverage d' b = coverage d b" by (simp add: coverage_card)
  with coverage_le_total [of d b] coverage_le_libraries [OF assms(2), of b] show ?thesis by simp
next
  case False
  let ?new = "book_moves ms b"
  from assms(1) have ok: "book_plan_ok d (length (libraries d)) b ?new" by (simp add: run_ok_def)
  with False have bound: "coverage d b + length ?new \<le> min (length (libraries d)) (book_total d b)"
    by (simp add: book_plan_ok_def)
  have unit: "\<forall>m \<in> set ?new. m_quantity m = 1" using ok by (simp add: book_plan_ok_def)
  have "{l. 0 < qty (library_books d') l b}
        \<subseteq> {l. 0 < qty (library_books d) l b} \<union> to_library_id ` set ?new"
  proof
    fix l assume "l \<in> {l. 0 < qty (library_books d') l b}"
    with run_ok_qty [OF assms(1), of l b]
    have "0 < qty (library_books d) l b \<or> 0 < in_qty ms l b" by auto
    moreover have "in_qty ms l b = to_count ?new l" using unit by (rule in_qty_book_moves)
    moreover have "0 < to_count ?new l \<Longrightarrow> l \<in> to_library_id ` set ?new"
      by (auto simp: to_count_def filter_empty_conv)
    ultimately show "l \<in> {l. 0 < qty (library_books d) l b} \<union> to_library_id ` set ?new"
      by auto
  qed
  then have "card {l. 0 < qty (library_books d') l b}
        \<le> card ({l. 0 < qty (library_books d) l b} \<union> to_library_id ` set ?new)"
    by (intro card_mono) (simp_all add: finite_holders)
  also have "\<dots> \<le> card {l. 0 < qty (library_books d) l b} + card (to_library_id ` set ?new)"
    by (rule card_Un_le)
  also have "card (to_library_id ` set ?new) \<le> length ?new"
    by (metis card_length length_map list.set_map)
  finally have "coverage d' b \<le> coverage d b + length ?new" by (simp add: coverage_card)
  with bound show ?thesis by simp
qed

lemma run_ok_unit:
  assumes "run_ok sd m d ms fc' d'" "mv \<in> set ms"
  shows "m_quantity mv = 1"
proof -
  from assms(1) have "book_plan_ok d (length (libraries d)) (m_book_id mv)
                        (book_moves ms (m_book_id mv))" by (simp add: run_ok_def)
  then have "\<forall>x \<in> set (book_moves ms (m_book_id mv)). m_quantity x = 1"
    unfolding book_plan_ok_def by blast
  moreover from assms(2) have "mv \<in> set (book_moves ms (m_book_id mv))"
    by (simp add: book_moves_def)
  ultimately show ?thesis by blast
qed

lemma out_qty_member:
  "mv \<in> set ms \<Longrightarrow> m_quantity mv \<le> out_qty ms (from_library_id mv) (m_book_id mv)"
  by (induction ms) (auto simp: out_qty_Cons)

lemma in_qty_member:
  "mv \<in> set ms \<Longrightarrow> m_quantity mv \<le> in_qty ms (to_library_id mv) (m_book_id mv)"
  by (induction ms) (auto simp: in_qty_Cons)

lemma run_ok_source:
  assumes "run_ok sd m d ms fc' d'" "mv \<in> set ms"
  shows "1 < qty (library_books d) (from_library_id mv) (m_book_id mv)"
proof -
  from assms(1) have "book_plan_ok d (length (libraries d)) (m_book_id mv)
                        (book_moves ms (m_book_id mv))" by (simp add: run_ok_def)
  from out_qty_le [OF this, of "from_library_id mv"]
    out_qty_member [OF assms(2)] run_ok_unit [OF assms]
  show ?thesis by simp
qed

lemma run_ok_dest:
  assumes "run_ok sd m d ms fc' d'" "set_difference_order sd" "mv \<in> set ms"
  shows "qty (library_books d) (to_library_id mv) (m_book_id mv) = 0"
proof -
  from assms(1,2) have "book_dests_ok d (m_book_id mv) (book_moves ms (m_book_id mv))"
    by (simp add: run_ok_def)
  then have "\<forall>x \<in> set (book_moves ms (m_book_id mv)).
                 qty (library_books d) (to_library_id x) (m_book_id mv) = 0"
    unfolding book_dests_ok_def by blast
  moreover from assms(3) have "mv \<in> set (book_moves ms (m_book_id mv))"
    by (simp add: book_moves_def)
  ultimately show ?thesis by blast
qed

lemma donors_are_holders_of_two:
  assumes "distinct (map row_key (library_books d))"
  shows "library_id ` set (donors_of (holdings_of d b)) = {l. 1 < qty (library_books d) l b}"
proof -
  have set_donors: "set (donors_of (holdings_of d b))
        = {h \<in> set (library_books d). book_id h = b \<and> 1 < quantity h}"
    by (auto simp: donors_of_def holdings_of_def)
  show ?thesis
  proof (intro set_eqI iffI)
    fix l assume "l \<in> library_id ` set (donors_of (holdings_of d b))"
    then obtain h where h: "h \<in> set (library_books d)" "book_id h = b" "1 < quantity h"
      "library_id h = l" unfolding set_donors by auto
    from qty_unique [OF assms h(1)] h show "l \<in> {l. 1 < qty (library_books d) l b}" by simp
  next
    fix l assume "l \<in> {l. 1 < qty (library_books d) l b}"
    then have pos: "1 < qty (library_books d) l b" by simp
    have "(l, b) \<in> row_key ` set (library_books d)"
    proof (rule ccontr)
      assume "(l, b) \<notin> row_key ` set (library_books d)"
      from qty_notin [OF this] pos show False by simp
    qed
    then obtain h where h: "h \<in> set (library_books d)" "library_id h = l" "book_id h = b"
      by (auto simp: row_key_def)
    from qty_unique [OF assms h(1)] h pos have "1 < quantity h" by simp
    with h show "l \<in> library_id ` set (donors_of (holdings_of d b))"
      unfolding set_donors by force
  qed
qed

lemma aggregate_keys:
  "aggregate ms (inc0, dec0) = (inc, dec) \<Longrightarrow>
     fst ` set inc = fst ` set inc0 \<union> (\<lambda>m. (to_library_id m, m_book_id m)) ` set ms
     \<and> fst ` set dec = fst ` set dec0 \<union> (\<lambda>m. (from_library_id m, m_book_id m)) ` set ms"
proof (induction ms arbitrary: inc0 dec0)
  case Nil
  then show ?case by simp
next
  case (Cons m ms)
  from Cons.prems have "aggregate ms
       (add_qty inc0 (to_library_id m, m_book_id m) (m_quantity m),
        add_qty dec0 (from_library_id m, m_book_id m) (m_quantity m)) = (inc, dec)" by simp
  from Cons.IH [OF this] show ?case
    unfolding keys_add_qty by (simp add: Un_insert_left Un_insert_right insert_commute)
qed

lemma count_distinct_le_1:
  "distinct (map f xs) \<Longrightarrow> length (filter (\<lambda>x. f x = l) xs) \<le> 1"
proof (induction xs)
  case Nil
  then show ?case by simp
next
  case (Cons x xs)
  show ?case
  proof (cases "f x = l")
    case True
    with Cons.prems have "l \<notin> f ` set xs" by simp
    then have "filter (\<lambda>x. f x = l) xs = []"
      unfolding filter_empty_conv by blast
    with True show ?thesis by simp
  next
    case False
    with Cons show ?thesis by simp
  qed
qed

lemma run_ok_in_qty:
  assumes "run_ok sd m d ms fc' d'" "set_difference_order sd"
  shows "in_qty ms l b \<le> 1"
proof -
  from assms have "book_dests_ok d b (book_moves ms b)" by (simp add: run_ok_def)
  then have "distinct (map to_library_id (book_moves ms b))" by (simp add: book_dests_ok_def)
  from count_distinct_le_1 [OF this, of l] have "to_count (book_moves ms b) l \<le> 1"
    by (simp add: to_count_def)
  moreover have "in_qty ms l b = to_count (book_moves ms b) l"
  proof (rule in_qty_book_moves)
    show "\<forall>mv \<in> set (book_moves ms b). m_quantity mv = 1"
      using run_ok_unit [OF assms(1)] by (simp add: book_moves_def)
  qed
  ultimately show ?thesis by simp
qed

subsection \<open>Free capacity\<close>

lemma fold_update_other:
  "k \<notin> f ` set rows \<Longrightarrow>
     map_of (fold (\<lambda>row fc. AList.update (f row) (g row) fc) rows acc) k = map_of acc k"
  by (induction rows arbitrary: acc) (simp_all add: update_conv')

lemma fold_update_member:
  "distinct (map f rows) \<Longrightarrow> r \<in> set rows \<Longrightarrow>
     map_of (fold (\<lambda>row fc. AList.update (f row) (g row) fc) rows acc) (f r) = Some (g r)"
proof (induction rows arbitrary: acc)
  case Nil
  then show ?case by simp
next
  case (Cons x xs)
  show ?case
  proof (cases "r = x")
    case True
    with Cons.prems have "f x \<notin> f ` set xs" by simp
    from fold_update_other [OF this, of g "AList.update (f x) (g x) acc"] True
    show ?thesis by (simp add: update_conv')
  next
    case False
    with Cons.prems have "distinct (map f xs)" "r \<in> set xs" by simp_all
    from Cons.IH [OF this] show ?thesis by simp
  qed
qed

lemma fcget_compute_library:
  assumes "distinct (map lib_id (libraries d))" "L \<in> set (libraries d)"
  shows "fcget (compute_free_capacity d) (lib_id L)
         = int (capacity L) - int (used_capacity d (lib_id L))"
  unfolding fcget_def compute_free_capacity_def used_capacity_def
  using fold_update_member [OF assms, of
      "\<lambda>row. int (capacity row) - int (sum_list (map quantity
          (filter (\<lambda>h. library_id h = lib_id row) (library_books d))))" "[]"]
  by simp

lemma fcget_compute_other:
  assumes "l \<notin> lib_id ` set (libraries d)"
  shows "fcget (compute_free_capacity d) l = 0"
  unfolding fcget_def compute_free_capacity_def
  using fold_update_other [OF assms, of
      "\<lambda>row. int (capacity row) - int (sum_list (map quantity
          (filter (\<lambda>h. library_id h = lib_id row) (library_books d))))" "[]"]
  by simp

lemma fcget_compute_nonneg:
  assumes "distinct (map lib_id (libraries d))"
    and "\<forall>L \<in> set (libraries d). used_capacity d (lib_id L) \<le> capacity L"
  shows "0 \<le> fcget (compute_free_capacity d) l"
proof (cases "l \<in> lib_id ` set (libraries d)")
  case False
  then show ?thesis by (simp add: fcget_compute_other)
next
  case True
  then obtain L where L: "L \<in> set (libraries d)" "l = lib_id L" by auto
  from assms(2) L(1) have "used_capacity d (lib_id L) \<le> capacity L" by blast
  with fcget_compute_library [OF assms(1) L(1)] L(2) show ?thesis by simp
qed

lemma fc_rel_bound:
  assumes "fc_rel fc fc' ms" "\<forall>l. 0 \<le> fcget fc l"
  shows "int (to_count ms l) \<le> fcget fc l" "0 \<le> fcget fc' l"
proof -
  from assms show nonneg: "0 \<le> fcget fc' l" by (simp add: fc_rel_def)
  from assms(1) have "fcget fc' l + int (to_count ms l) = fcget fc l" by (simp add: fc_rel_def)
  with nonneg show "int (to_count ms l) \<le> fcget fc l" by simp
qed

lemma sum_list_units:
  "\<forall>x \<in> set xs. f x = (1 :: nat) \<Longrightarrow> sum_list (map f xs) = length xs"
  by (induction xs) simp_all

lemma run_ok_used:
  assumes "run_ok sd m d ms fc' d'"
  shows "used_capacity d' l \<le> used_capacity d l + to_count ms l"
proof -
  define B where "B = book_id ` set (library_books d) \<union> book_id ` set (library_books d')
                        \<union> m_book_id ` set ms"
  have fin: "finite B" by (simp add: B_def)
  have u': "used_capacity d' l = (\<Sum>b \<in> B. qty (library_books d') l b)"
    using fin by (rule used_as_sum) (auto simp: B_def)
  have u: "used_capacity d l = (\<Sum>b \<in> B. qty (library_books d) l b)"
    using fin by (rule used_as_sum) (auto simp: B_def)
  have "(\<Sum>b \<in> B. in_qty ms l b)
        = sum_list (map m_quantity (filter (\<lambda>m. to_library_id m = l) ms))"
    using fin by (rule in_qty_sum_books) (auto simp: B_def)
  also have "\<dots> = to_count ms l"
    unfolding to_count_def using run_ok_unit [OF assms] by (intro sum_list_units) simp
  finally have ins: "(\<Sum>b \<in> B. in_qty ms l b) = to_count ms l" .
  have "qty (library_books d') l b \<le> qty (library_books d) l b + in_qty ms l b" for b
    using run_ok_qty [OF assms, of l b] by simp
  then have "(\<Sum>b \<in> B. qty (library_books d') l b)
        \<le> (\<Sum>b \<in> B. qty (library_books d) l b + in_qty ms l b)"
    by (intro sum_mono)
  also have "\<dots> = (\<Sum>b \<in> B. qty (library_books d) l b) + (\<Sum>b \<in> B. in_qty ms l b)"
    by (rule sum.distrib)
  finally show ?thesis unfolding u u' ins .
qed

subsection \<open>Conservation, coverage, donors, destinations and capacity\<close>

lemma wf_scenario_b: "wf_store scenario_b"
  by (simp add: wf_store_def scenario_b_def row_key_def)

lemma ascending_difference_order: "set_difference_order ascending_difference"
  by (auto simp: set_difference_order_def ascending_difference_def)












subsection \<open>No library\<close>

lemma candidate_book_ids_0 [simp]: "candidate_book_ids d 0 = []"
  by (simp add: candidate_book_ids_def)

lemma apply_plan_Nil [simp]: "apply_plan [] d = Inr d"
  by (simp add: apply_plan_def)

lemma ordered_ids_Nil [simp]: "ordered_ids m d [] = Inr []"
  by (simp add: ordered_ids_def)

subsection \<open>The order of the priority manager\<close>

lemma book_meta_id: "book_meta d base bid = Some bk \<Longrightarrow> bk_id bk = bid"
  unfolding book_meta_def by (auto dest!: map_of_SomeD)

lemma sorted_keys_of_sort:
  assumes "\<forall>p \<in> set zs. fst p = K (snd p)"
  shows "sorted (map K (map snd (sort_key fst zs)))"
proof -
  have all: "\<forall>p \<in> set (sort_key fst zs). fst p = K (snd p)" using assms by simp
  have eq: "map K (map snd (sort_key fst zs)) = map fst (sort_key fst zs)"
    unfolding map_map by (rule map_cong [OF refl]) (use all in auto)
  show ?thesis unfolding eq by (rule sorted_sort_key)
qed

lemma ordered_ids_sorted:
  assumes "ordered_ids m d base = Inr ord"
  shows "sorted (map (\<lambda>bid. projr (book_sort_key m (book_meta d base) bid)) ord)"
    and "\<forall>bid \<in> set base. \<not> isl (book_sort_key m (book_meta d base) bid)"
proof -
  let ?K = "\<lambda>bid. projr (book_sort_key m (book_meta d base) bid)"
  let ?zs = "zip (map projr (map (book_sort_key m (book_meta d base)) base)) base"
  from assms have ord: "ord = map snd (sort_key fst ?zs)"
    by (simp add: ordered_ids_def Let_def split: if_splits)
  from assms show "\<forall>bid \<in> set base. \<not> isl (book_sort_key m (book_meta d base) bid)"
    by (simp add: ordered_ids_def Let_def split: if_splits)
  have "?zs = map (\<lambda>bid. (?K bid, bid)) base"
    by (simp add: zip_map1 zip_same_conv_map)
  then have "\<forall>p \<in> set ?zs. fst p = ?K (snd p)" by auto
  from sorted_keys_of_sort [OF this] show "sorted (map ?K ord)" unfolding ord by simp
qed

subsection \<open>What a run leaves behind\<close>

lemma plan_loop_manager:
  "plan_loop sd d n bs (ms0, c0, m0) = Inr (ms, c, m') \<Longrightarrow>
     (\<exists>fc'. m' = m0\<lparr>free_capacity := fc'\<rparr>) \<and> (kind m0 = Base \<longrightarrow> m' = m0)"
proof (induction bs arbitrary: ms0 c0 m0)
  case Nil
  then have "m' = m0\<lparr>free_capacity := free_capacity m0\<rparr>" by simp
  then show ?case by (metis manager.update_convs(3) manager.surjective)
next
  case (Cons b bs)
  from build_props [of sd m0 d b n] obtain new fc1 where
    b1: "build_plan_for_book sd m0 d b n = Inr (new, m0\<lparr>free_capacity := fc1\<rparr>)"
    "kind m0 = Base \<longrightarrow> fc1 = free_capacity m0" by blast
  with Cons.prems
  have "plan_loop sd d n bs (ms0 @ new, c0 + 1, m0\<lparr>free_capacity := fc1\<rparr>) = Inr (ms, c, m')"
    by simp
  from Cons.IH [OF this] obtain fc' where
    m': "m' = m0\<lparr>free_capacity := fc1, free_capacity := fc'\<rparr>"
    and base: "kind m0 = Base \<longrightarrow> m' = m0\<lparr>free_capacity := fc1\<rparr>" by auto
  from m' have "m' = m0\<lparr>free_capacity := fc'\<rparr>" by simp
  moreover from base b1(2) have "kind m0 = Base \<longrightarrow> m' = m0" by auto
  ultimately show ?case by blast
qed

lemma finish_result:
  "finish d (ms, c, m1) = Inr (p, m', d') \<Longrightarrow> m' = m1 \<and> (dry_run m1 \<longrightarrow> d' = d)"
  by (auto simp: finish_def Let_def split: if_splits sum.splits)

lemma rebalance_manager:
  assumes "rebalance sd m d = Inr (p, m', d')"
  shows "(\<exists>fc'. m' = m\<lparr>free_capacity := fc'\<rparr>) \<and> (kind m = Base \<longrightarrow> m' = m)
         \<and> (dry_run m \<longrightarrow> d' = d)"
proof -
  from assms obtain bs ms c m1 where
    l: "plan_loop sd d (length (libraries d)) bs ([], 0, m) = Inr (ms, c, m1)"
    and f: "finish d (ms, c, m1) = Inr (p, m', d')"
    by (cases "kind m")
      (auto simp: rebalance_def base_rebalance_def priority_rebalance_def Let_def
         split: sum.splits)
  from plan_loop_manager [OF l] obtain fc' where m1: "m1 = m\<lparr>free_capacity := fc'\<rparr>"
    and base: "kind m = Base \<longrightarrow> m1 = m" by blast
  from finish_result [OF f] have "m' = m1" "dry_run m1 \<longrightarrow> d' = d" by simp_all
  with m1 base show ?thesis by auto
qed

subsection \<open>A run on a manager whose capacity map is not empty\<close>

lemma holdings_of_libraries [simp]: "holdings_of (d\<lparr>libraries := libs\<rparr>) b = holdings_of d b"
  by (simp add: holdings_of_def)

lemma candidate_book_ids_libraries [simp]:
  "candidate_book_ids (d\<lparr>libraries := libs\<rparr>) n = candidate_book_ids d n"
  by (simp add: candidate_book_ids_def)

lemma ordered_ids_libraries [simp]:
  "ordered_ids m (d\<lparr>libraries := libs\<rparr>) base = ordered_ids m d base"
  by (simp add: ordered_ids_def book_meta_def)

lemma apply_plan_libraries:
  "apply_plan ms (d\<lparr>libraries := libs\<rparr>)
     = (case apply_plan ms d of Inl e \<Rightarrow> Inl e | Inr d' \<Rightarrow> Inr (d'\<lparr>libraries := libs\<rparr>))"
  by (simp add: apply_plan_def Let_def split: prod.splits sum.splits)

lemma capacity_build_libraries:
  assumes "free_capacity m \<noteq> []"
  shows "capacity_build_plan_for_book sd m (d\<lparr>libraries := libs\<rparr>) b n
         = capacity_build_plan_for_book sd m d b n"
  using assms by (simp add: capacity_build_plan_for_book_def)

lemma capacity_build_stays_nonempty:
  assumes "free_capacity m \<noteq> []"
    and "capacity_build_plan_for_book sd m d b n = Inr (new, m')"
  shows "free_capacity m' \<noteq> [] \<and> kind m' = kind m"
proof -
  from capacity_build_props [of sd m d b n] assms(2) obtain fc' where
    "m' = m\<lparr>free_capacity := fc'\<rparr>" "fc_rel (eff_fc m d) fc' new" by auto
  moreover from assms(1) have "eff_fc m d \<noteq> []" by (simp add: eff_fc_def)
  ultimately show ?thesis by (auto simp: fc_rel_def)
qed

lemma plan_loop_libraries:
  assumes "kind m \<noteq> Base" "free_capacity m \<noteq> []"
  shows "plan_loop sd (d\<lparr>libraries := libs\<rparr>) n bs (ms, c, m) = plan_loop sd d n bs (ms, c, m)"
  using assms
proof (induction bs arbitrary: ms c m)
  case Nil
  then show ?case by simp
next
  case (Cons b bs)
  from Cons.prems(1) have disp: "build_plan_for_book sd m d' b n
      = capacity_build_plan_for_book sd m d' b n" for d'
    by (cases "kind m") (simp_all add: build_plan_for_book_def)
  show ?case
  proof (cases "capacity_build_plan_for_book sd m d b n")
    case (Inl e)
    with Cons.prems(2) show ?thesis by (simp add: disp capacity_build_libraries)
  next
    case (Inr r)
    obtain new m' where r: "r = (new, m')" by (cases r)
    from capacity_build_stays_nonempty [OF Cons.prems(2) Inr [unfolded r]] Cons.prems(1)
    have "kind m' \<noteq> Base" "free_capacity m' \<noteq> []" by simp_all
    from Cons.IH [OF this] Inr r Cons.prems(2) show ?thesis
      by (simp add: disp capacity_build_libraries)
  qed
qed

lemma finish_libraries:
  "map_sum id fst (finish (d\<lparr>libraries := libs\<rparr>) s) = map_sum id fst (finish d s)"
  by (cases s) (auto simp: finish_def Let_def apply_plan_libraries split: sum.splits)

lemma rebalance_libraries:
  assumes "kind m \<noteq> Base" "free_capacity m \<noteq> []" "length libs = length (libraries d)"
  shows "map_sum id fst (rebalance sd m (d\<lparr>libraries := libs\<rparr>))
         = map_sum id fst (rebalance sd m d)"
proof -
  have "map_sum id fst (case plan_loop sd (d\<lparr>libraries := libs\<rparr>) n bs ([], 0, m) of
                          Inl e \<Rightarrow> Inl e | Inr s \<Rightarrow> finish (d\<lparr>libraries := libs\<rparr>) s)
        = map_sum id fst (case plan_loop sd d n bs ([], 0, m) of
                            Inl e \<Rightarrow> Inl e | Inr s \<Rightarrow> finish d s)" for n bs
    unfolding plan_loop_libraries [OF assms(1,2)]
    by (cases "plan_loop sd d n bs ([], 0, m)") (simp_all add: finish_libraries)
  with assms(1,3) show ?thesis
    by (cases "kind m")
      (simp_all add: rebalance_def base_rebalance_def priority_rebalance_def Let_def
         split: sum.splits)
qed

lemma build_fresh_snapshot:
  assumes "kind m \<noteq> Base"
  shows "build_plan_for_book sd (m\<lparr>free_capacity := []\<rparr>) d b n
         = build_plan_for_book sd (m\<lparr>free_capacity := compute_free_capacity d\<rparr>) d b n"
proof -
  have "capacity_build_plan_for_book sd (m\<lparr>free_capacity := []\<rparr>) d b n
        = capacity_build_plan_for_book sd (m\<lparr>free_capacity := compute_free_capacity d\<rparr>) d b n"
    by (simp add: capacity_build_plan_for_book_def Let_def split: sum.splits prod.splits)
  with assms show ?thesis
    by (cases "kind m") (simp_all add: build_plan_for_book_def)
qed

subsection \<open>Ties keep the order of the candidates\<close>

lemma insort_key_decorated:
  "insort_key fst (K x, x) (map (\<lambda>y. (K y, y)) ys) = map (\<lambda>y. (K y, y)) (insort_key K x ys)"
  by (induction ys) simp_all

lemma sort_key_decorated:
  "map snd (sort_key fst (map (\<lambda>y. (K y, y)) xs)) = sort_key K xs"
proof -
  have "sort_key fst (map (\<lambda>y. (K y, y)) xs) = map (\<lambda>y. (K y, y)) (sort_key K xs)"
    by (induction xs) (simp_all add: insort_key_decorated)
  then show ?thesis by (simp add: comp_def)
qed

lemma ordered_ids_sort_key:
  assumes "ordered_ids m d base = Inr ord"
  shows "ord = sort_key (\<lambda>bid. projr (book_sort_key m (book_meta d base) bid)) base"
proof -
  let ?K = "\<lambda>bid. projr (book_sort_key m (book_meta d base) bid)"
  let ?zs = "zip (map projr (map (book_sort_key m (book_meta d base)) base)) base"
  from assms have ord: "ord = map snd (sort_key fst ?zs)"
    by (simp add: ordered_ids_def Let_def split: if_splits)
  have "?zs = map (\<lambda>bid. (?K bid, bid)) base"
    by (simp add: zip_map1 zip_same_conv_map)
  then show ?thesis unfolding ord by (simp only: sort_key_decorated)
qed

subsection \<open>A second run on the same manager\<close>

lemma book_sort_key_free_capacity [simp]:
  "book_sort_key (m\<lparr>free_capacity := fc\<rparr>) meta = book_sort_key m meta"
  by (rule ext) (simp add: book_sort_key_def split: option.splits)

lemma ordered_ids_free_capacity [simp]:
  "ordered_ids (m\<lparr>free_capacity := fc\<rparr>) d base = ordered_ids m d base"
  by (simp add: ordered_ids_def)

lemma eff_fc_idem [simp]: "eff_fc (m\<lparr>free_capacity := eff_fc m d\<rparr>) d = eff_fc m d"
  by (simp add: eff_fc_def)

lemma capacity_build_precomputed:
  "capacity_build_plan_for_book sd (m\<lparr>free_capacity := eff_fc m d\<rparr>) d b n
     = capacity_build_plan_for_book sd m d b n"
  unfolding capacity_build_unfold eff_fc_idem
  by (simp split: sum.splits prod.splits)

lemma build_precomputed:
  assumes "kind m \<noteq> Base"
  shows "build_plan_for_book sd (m\<lparr>free_capacity := eff_fc m d\<rparr>) d b n
         = build_plan_for_book sd m d b n"
  using assms capacity_build_precomputed [of sd m d b n]
  by (cases "kind m") (simp_all add: build_plan_for_book_def)

lemma plan_loop_precomputed:
  assumes "kind m \<noteq> Base" "bs \<noteq> []"
  shows "plan_loop sd d n bs (ms, c, m\<lparr>free_capacity := eff_fc m d\<rparr>)
         = plan_loop sd d n bs (ms, c, m)"
  using assms by (cases bs) (simp_all add: build_precomputed)

lemma capacity_while_same:
  "capacity_while b dn t rs c (ms, ri, cov, fc) = Inr (ms', ri', cov', fc') \<Longrightarrow>
     \<exists>new. ms' = ms @ new \<and> (new = [] \<longrightarrow> fc' = fc)"
proof (induction b dn t rs c "(ms, ri, cov, fc)" arbitrary: ms ri cov fc
    rule: capacity_while.induct)
  case (1 b dn t rs c ms ri cov fc)
  show ?case
  proof (cases "c > 0 \<and> cov < t \<and> ri < length rs")
    case False
    with "1.prems" show ?thesis by (simp add: capacity_while_stop)
  next
    case True
    show ?thesis
    proof (cases "map_of fc (rs ! ri)")
      case None
      with True "1.prems" show ?thesis by (simp add: capacity_while_None)
    next
      case (Some free)
      show ?thesis
      proof (cases "free \<le> 0")
        case le: True
        from "1.prems" True Some le
        have "capacity_while b dn t rs c (ms, ri + 1, cov, fc) = Inr (ms', ri', cov', fc')"
          by (simp add: capacity_while_skip)
        from "1.hyps"(1) [OF True Some le this] show ?thesis .
      next
        case gt: False
        from "1.prems" True Some gt
        have "capacity_while b dn t rs (c - 1)
            (ms @ [mk_move b dn (rs ! ri)], ri + 1, cov + 1,
             AList.update (rs ! ri) (free - 1) fc) = Inr (ms', ri', cov', fc')"
          by (simp add: capacity_while_take)
        from "1.hyps"(2) [OF True Some gt this] obtain new where
          "ms' = (ms @ [mk_move b dn (rs ! ri)]) @ new" by blast
        then have "ms' = ms @ (mk_move b dn (rs ! ri) # new)" by simp
        then show ?thesis by blast
      qed
    qed
  qed
qed

lemma capacity_for_same:
  "capacity_for b t rs ds (ms, ri, cov, fc) = Inr (ms', ri', cov', fc') \<Longrightarrow>
     \<exists>new. ms' = ms @ new \<and> (new = [] \<longrightarrow> fc' = fc)"
proof (induction ds arbitrary: ms ri cov fc)
  case Nil
  then show ?case by simp
next
  case (Cons h ds)
  show ?case
  proof (cases "capacity_while b (library_id h) t rs (quantity h - 1) (ms, ri, cov, fc)")
    case (Inl e)
    with Cons.prems show ?thesis by simp
  next
    case (Inr s1)
    obtain ms1 ri1 cov1 fc1 where s1: "s1 = (ms1, ri1, cov1, fc1)" by (cases s1)
    from capacity_while_same [OF Inr [unfolded s1]] obtain new1 where
      n1: "ms1 = ms @ new1" "new1 = [] \<longrightarrow> fc1 = fc" by blast
    show ?thesis
    proof (cases "cov1 \<ge> t")
      case True
      with Cons.prems Inr s1 have "ms' = ms1" "fc' = fc1" by simp_all
      with n1 show ?thesis by blast
    next
      case False
      with Cons.prems Inr s1
      have "capacity_for b t rs ds (ms1, ri1, cov1, fc1) = Inr (ms', ri', cov', fc')" by simp
      from Cons.IH [OF this] obtain new2 where
        n2: "ms' = ms1 @ new2" "new2 = [] \<longrightarrow> fc' = fc1" by blast
      from n1 n2 have "ms' = ms @ (new1 @ new2)"
        "new1 @ new2 = [] \<longrightarrow> fc' = fc" by simp_all
      then show ?thesis by blast
    qed
  qed
qed

lemma capacity_build_no_moves:
  assumes "capacity_build_plan_for_book sd m d b n = Inr ([], m')"
  shows "m' = m\<lparr>free_capacity := eff_fc m d\<rparr>"
proof (cases "book_total d b = 0 \<or> min n (book_total d b) \<le> coverage d b")
  case True
  with assms show ?thesis by (auto simp: capacity_build_unfold split: if_splits)
next
  case False
  let ?fc = "eff_fc m d"
  let ?rs = "filter (\<lambda>lid. 0 < fcget ?fc lid) (sd (map fst ?fc) (has_of (holdings_of d b)))"
  let ?run = "capacity_for b (min n (book_total d b)) ?rs (donors_of (holdings_of d b))
                ([], 0, coverage d b, ?fc)"
  show ?thesis
  proof (cases ?run)
    case (Inl e)
    with False assms show ?thesis by (simp add: capacity_build_unfold)
  next
    case (Inr s1)
    obtain ms1 ri1 cov1 fc1 where s1: "s1 = (ms1, ri1, cov1, fc1)" by (cases s1)
    from False assms Inr s1 have r: "ms1 = []" "m' = m\<lparr>free_capacity := fc1\<rparr>"
      by (simp_all add: capacity_build_unfold)
    from capacity_for_same [OF Inr [unfolded s1]] r(1) have "fc1 = ?fc" by simp
    with r(2) show ?thesis by simp
  qed
qed

lemma build_no_moves:
  assumes "kind m \<noteq> Base" "build_plan_for_book sd m d b n = Inr ([], m')"
  shows "m' = m\<lparr>free_capacity := eff_fc m d\<rparr>"
proof -
  from assms have "capacity_build_plan_for_book sd m d b n = Inr ([], m')"
    by (cases "kind m") (simp_all add: build_plan_for_book_def)
  then show ?thesis by (rule capacity_build_no_moves)
qed

lemma plan_loop_prefix:
  "plan_loop sd d n bs (ms0, c0, m0) = Inr (ms, c, m') \<Longrightarrow>
     \<exists>new. ms = ms0 @ new \<and> c = c0 + length bs"
proof (induction bs arbitrary: ms0 c0 m0)
  case Nil
  then show ?case by simp
next
  case (Cons b bs)
  from build_props [of sd m0 d b n] obtain new1 m1 where
    b1: "build_plan_for_book sd m0 d b n = Inr (new1, m1)" by blast
  with Cons.prems have "plan_loop sd d n bs (ms0 @ new1, c0 + 1, m1) = Inr (ms, c, m')"
    by simp
  from Cons.IH [OF this] obtain new2 where "ms = (ms0 @ new1) @ new2"
    "c = c0 + 1 + length bs" by blast
  then have "ms = ms0 @ (new1 @ new2)" "c = c0 + length (b # bs)" by simp_all
  then show ?case by blast
qed

lemma plan_loop_no_moves:
  assumes "kind m \<noteq> Base" "bs \<noteq> []"
    and "plan_loop sd d n bs (ms0, c0, m) = Inr (ms0, c, m')"
  shows "m' = m\<lparr>free_capacity := eff_fc m d\<rparr>"
  using assms
proof (induction bs arbitrary: m c0)
  case Nil
  then show ?case by simp
next
  case (Cons b bs)
  from build_props [of sd m d b n] obtain new1 fc1 where
    b1: "build_plan_for_book sd m d b n = Inr (new1, m\<lparr>free_capacity := fc1\<rparr>)" by blast
  let ?m1 = "m\<lparr>free_capacity := fc1\<rparr>"
  from b1 Cons.prems(3)
  have rest: "plan_loop sd d n bs (ms0 @ new1, c0 + 1, ?m1) = Inr (ms0, c, m')" by simp
  from plan_loop_prefix [OF rest] have new1: "new1 = []" by auto
  from build_no_moves [OF Cons.prems(1) b1 [unfolded new1]]
  have m1: "?m1 = m\<lparr>free_capacity := eff_fc m d\<rparr>" .
  show ?case
  proof (cases "bs = []")
    case True
    with rest m1 show ?thesis by simp
  next
    case False
    from Cons.prems(1) have k1: "kind ?m1 \<noteq> Base" by simp
    from rest new1 have "plan_loop sd d n bs (ms0, c0 + 1, ?m1) = Inr (ms0, c, m')" by simp
    from Cons.IH [OF k1 False this] have "m' = ?m1\<lparr>free_capacity := eff_fc ?m1 d\<rparr>" .
    also have "\<dots> = m\<lparr>free_capacity := eff_fc m d\<rparr>" unfolding m1 by simp
    finally show ?thesis .
  qed
qed

lemma rebalance_as_loop:
  assumes "rebalance sd m d = Inr r"
  shows "\<exists>bs. \<forall>fc. rebalance sd (m\<lparr>free_capacity := fc\<rparr>) d
           = (case plan_loop sd d (length (libraries d)) bs ([], 0, m\<lparr>free_capacity := fc\<rparr>) of
                Inl e \<Rightarrow> Inl e | Inr s \<Rightarrow> finish d s)"
proof (cases "kind m = Priority")
  case False
  then have "\<forall>fc. rebalance sd (m\<lparr>free_capacity := fc\<rparr>) d
      = (case plan_loop sd d (length (libraries d))
                (candidate_book_ids d (length (libraries d))) ([], 0, m\<lparr>free_capacity := fc\<rparr>) of
           Inl e \<Rightarrow> Inl e | Inr s \<Rightarrow> finish d s)"
    by (cases "kind m") (simp_all add: rebalance_def base_rebalance_def Let_def)
  then show ?thesis by blast
next
  case True
  let ?base = "candidate_book_ids d (length (libraries d))"
  from assms True obtain ord where ord: "ordered_ids m d ?base = Inr ord"
    by (cases "ordered_ids m d ?base")
      (simp_all add: rebalance_def priority_rebalance_def Let_def)
  with True have "\<forall>fc. rebalance sd (m\<lparr>free_capacity := fc\<rparr>) d
      = (case plan_loop sd d (length (libraries d)) ord ([], 0, m\<lparr>free_capacity := fc\<rparr>) of
           Inl e \<Rightarrow> Inl e | Inr s \<Rightarrow> finish d s)"
    by (simp add: rebalance_def priority_rebalance_def Let_def)
  then show ?thesis by blast
qed

lemma rebalance_again:
  assumes dry: "dry_run m" and k: "kind m \<noteq> Base"
    and r: "rebalance sd m d = Inr (p, m', d')" and none: "moves p = []"
  shows "rebalance sd m' d' = Inr (p, m', d')"
proof -
  let ?n = "length (libraries d)"
  from rebalance_as_loop [OF r] obtain bs where
    loop: "\<And>fc. rebalance sd (m\<lparr>free_capacity := fc\<rparr>) d
           = (case plan_loop sd d ?n bs ([], 0, m\<lparr>free_capacity := fc\<rparr>) of
                Inl e \<Rightarrow> Inl e | Inr s \<Rightarrow> finish d s)" by blast
  from loop [of "free_capacity m"]
  have r0: "rebalance sd m d
           = (case plan_loop sd d ?n bs ([], 0, m) of Inl e \<Rightarrow> Inl e | Inr s \<Rightarrow> finish d s)"
    by simp
  with r obtain s where s: "plan_loop sd d ?n bs ([], 0, m) = Inr s"
    and f: "finish d s = Inr (p, m', d')"
    by (cases "plan_loop sd d ?n bs ([], 0, m)") simp_all
  obtain ms c m1 where s1: "s = (ms, c, m1)" by (cases s)
  from f s1 have p: "p = \<lparr>moves = ms, total_moves = length ms, books_considered = c\<rparr>"
    by (auto simp: finish_def Let_def split: if_splits sum.splits)
  from finish_result [OF f [unfolded s1]] have m': "m' = m1" and "dry_run m1 \<longrightarrow> d' = d"
    by simp_all
  from plan_loop_manager [OF s [unfolded s1]] dry have "dry_run m1" by auto
  with \<open>dry_run m1 \<longrightarrow> d' = d\<close> have d': "d' = d" by simp
  from p none have ms: "ms = []" by simp
  show ?thesis
  proof (cases "bs = []")
    case True
    with s s1 have "m1 = m" by simp
    with m' d' r show ?thesis by simp
  next
    case False
    from plan_loop_no_moves [OF k False, of sd d ?n "[]" 0 c m1] s s1 ms
    have m1: "m1 = m\<lparr>free_capacity := eff_fc m d\<rparr>" by simp
    from plan_loop_precomputed [OF k False, of sd d ?n "[]" 0] s
    have "plan_loop sd d ?n bs ([], 0, m\<lparr>free_capacity := eff_fc m d\<rparr>) = Inr s" by simp
    with loop [of "eff_fc m d"] f
    have "rebalance sd (m\<lparr>free_capacity := eff_fc m d\<rparr>) d = Inr (p, m', d')" by simp
    with m' m1 d' show ?thesis by simp
  qed
qed

subsection \<open>Empty stores, routing, order and repeated runs\<close>

text \<open>
  Claim C6, as the code has it. With no library, a run is not a failure: it returns the
  ordinary empty report (no book considered, no move) and leaves manager and store as
  they were.
\<close>

theorem no_libraries_empty_report:
  assumes "libraries d = []"
  shows "rebalance sd m d
         = Inr (\<lparr>moves = [], total_moves = 0, books_considered = 0\<rparr>, m, d)"
  using assms
  by (cases "kind m")
    (simp_all add: rebalance_def base_rebalance_def priority_rebalance_def finish_def Let_def)

theorem no_libraries_empty_report_witness:
  "libraries no_libraries = []
   \<and> rebalance ascending_difference (PriorityRedistributionManager_init False None None)
        no_libraries
      = Inr (\<lparr>moves = [], total_moves = 0, books_considered = 0\<rparr>,
             PriorityRedistributionManager_init False None None, no_libraries)"
proof -
  have e: "libraries no_libraries = []" by (simp add: no_libraries_def)
  from no_libraries_empty_report [OF e] e show ?thesis by simp
qed

theorem no_libraries_counterexample:
  "rebalance ascending_difference (RedistributionManager_init True) no_libraries
   = Inr (\<lparr>moves = [], total_moves = 0, books_considered = 0\<rparr>,
          RedistributionManager_init True, no_libraries)"
  by code_simp

text \<open>
  Claim C9, as the code has it. The command first converts the author ids; if an item
  passes \<open>isdigit\<close> and \<open>int\<close> rejects it, the command raises and no manager is
  built. Otherwise it builds a capacity-aware manager only when the capacity flag is set:
  then a non-empty priority or author list selects the priority manager, else the
  capacity-aware one. Without the flag it builds the base manager whatever priority and
  authors are given, and the run is the base run, which plans with the base builder and
  never reads a capacity.
\<close>

theorem routing_follows_capacity_flag:
  "(case parse_authors u (opt_authors os) of
      Inl e \<Rightarrow> handle u sd os d = Inl e
    | Inr authors \<Rightarrow>
        handle u sd os d = rebalance sd (select_manager (\<not> opt_apply os) os authors) d
        \<and> kind (select_manager (\<not> opt_apply os) os authors)
            = (if opt_capacity_aware os
               then (if opt_priority os = [] \<and> authors = [] then CapacityAware else Priority)
               else Base)
        \<and> select_manager (\<not> opt_apply os) (os\<lparr>opt_capacity_aware := False\<rparr>) authors
            = RedistributionManager_init (\<not> opt_apply os)
        \<and> handle u sd (os\<lparr>opt_capacity_aware := False\<rparr>) d
            = base_rebalance sd (RedistributionManager_init (\<not> opt_apply os)) d)
   \<and> build_plan_for_book sd (RedistributionManager_init dr) d b n
       = Inr (base_build_plan_for_book sd d b n, RedistributionManager_init dr)"
  by (simp add: select_manager_def Let_def handle_def rebalance_def build_plan_for_book_def
      RedistributionManager_init_def CapacityAwareRedistributionManager_init_def
      PriorityRedistributionManager_init_def split: sum.splits)

theorem routing_follows_capacity_flag_witness:
  "parse_authors latin1 [55] = Inr [7]
   \<and> kind (select_manager True
             \<lparr>opt_apply = False, opt_capacity_aware = True, opt_priority = [],
              opt_authors = [55]\<rparr> [7]) = Priority
   \<and> handle latin1 ascending_difference
         \<lparr>opt_apply = False, opt_capacity_aware = False, opt_priority = [],
          opt_authors = [55]\<rparr> full_recipient
       = base_rebalance ascending_difference (RedistributionManager_init True) full_recipient
   \<and> parse_authors latin1 [178] = Inl ValueError
   \<and> handle latin1 ascending_difference
         \<lparr>opt_apply = False, opt_capacity_aware = True, opt_priority = ''author_first'',
          opt_authors = [178]\<rparr> full_recipient
       = Inl ValueError"
proof -
  have seven: "parse_authors latin1 [55] = Inr [7]" by code_simp
  have square: "parse_authors latin1 [178] = Inl ValueError" by code_simp
  from routing_follows_capacity_flag [where u = latin1 and sd = ascending_difference
      and d = full_recipient
      and os = "\<lparr>opt_apply = False, opt_capacity_aware = True, opt_priority = [],
                opt_authors = [55]\<rparr>"] seven
  have a: "kind (select_manager True
             \<lparr>opt_apply = False, opt_capacity_aware = True, opt_priority = [],
              opt_authors = [55]\<rparr> [7]) = Priority"
    and b: "handle latin1 ascending_difference
         \<lparr>opt_apply = False, opt_capacity_aware = False, opt_priority = [],
          opt_authors = [55]\<rparr> full_recipient
       = base_rebalance ascending_difference (RedistributionManager_init True) full_recipient"
    by simp_all
  from routing_follows_capacity_flag [where u = latin1 and sd = ascending_difference
      and d = full_recipient
      and os = "\<lparr>opt_apply = False, opt_capacity_aware = True,
                opt_priority = ''author_first'', opt_authors = [178]\<rparr>"] square
  have c: "handle latin1 ascending_difference
         \<lparr>opt_apply = False, opt_capacity_aware = True, opt_priority = ''author_first'',
          opt_authors = [178]\<rparr> full_recipient
       = Inl ValueError"
    by simp
  from seven a b square c show ?thesis by (intro conjI)
qed

theorem priority_without_capacity_counterexample:
  "parse_authors latin1 [55] = Inr [7]
   \<and> select_manager True
         \<lparr>opt_apply = False, opt_capacity_aware = False, opt_priority = ''author_first'',
          opt_authors = [55]\<rparr> [7]
       = RedistributionManager_init True
   \<and> handle latin1 ascending_difference
         \<lparr>opt_apply = False, opt_capacity_aware = False, opt_priority = ''author_first'',
          opt_authors = [55]\<rparr> full_recipient
       = Inr (\<lparr>moves = [mk_move 1 1 2], total_moves = 1, books_considered = 2\<rparr>,
              RedistributionManager_init True, full_recipient)
   \<and> rebalance ascending_difference
         (PriorityRedistributionManager_init True (Some ''author_first'') (Some [7]))
         full_recipient
       = Inr (\<lparr>moves = [], total_moves = 0, books_considered = 2\<rparr>,
              (PriorityRedistributionManager_init True (Some ''author_first'') (Some [7]))
                \<lparr>free_capacity := [(1, 3), (2, 0)]\<rparr>, full_recipient)"
  by code_simp

text \<open>
  Claim C7, as the code has it. Under \<open>author_first\<close> the candidates are processed in an
  order in which a book of a configured author never follows a book of another author;
  two books of configured authors come newer first, and those of one year keep the order
  in which the candidates came; two books of other authors come in ascending order of
  their ids, whatever their years.
\<close>

theorem author_first_order:
  assumes "priority m = ''author_first''" and "ordered_ids m d base = Inr ord"
    and "i < j" and "j < length ord"
  shows "set ord = set base \<and> length ord = length base
     \<and> (\<exists>bi bj. book_meta d base (ord ! i) = Some bi \<and> book_meta d base (ord ! j) = Some bj
          \<and> (author_id bj \<in> set (author_ids m)
                \<longrightarrow> author_id bi \<in> set (author_ids m) \<and> year bj \<le> year bi)
          \<and> (author_id bi \<notin> set (author_ids m)
                \<longrightarrow> author_id bj \<notin> set (author_ids m) \<and> ord ! i \<le> ord ! j))
     \<and> (\<forall>y. filter (\<lambda>bid. case book_meta d base bid of None \<Rightarrow> False
                              | Some bk \<Rightarrow> author_id bk \<in> set (author_ids m) \<and> year bk = y) ord
            = filter (\<lambda>bid. case book_meta d base bid of None \<Rightarrow> False
                              | Some bk \<Rightarrow> author_id bk \<in> set (author_ids m) \<and> year bk = y) base)"
proof -
  let ?meta = "book_meta d base"
  let ?K = "\<lambda>bid. projr (book_sort_key m ?meta bid)"
  from ordered_ids_perm [OF assms(2)] have perm: "set ord = set base" by simp
  from ordered_ids_sort_key [OF assms(2)] have srt: "ord = sort_key ?K base" .
  then have len: "length ord = length base" by simp
  have key: "\<exists>bk. ?meta bid = Some bk
               \<and> ?K bid = (if author_id bk \<in> set (author_ids m) then (0, - year bk)
                            else (2, bid))"
    if "bid \<in> set base" for bid
  proof -
    from that ordered_ids_sorted(2) [OF assms(2)]
    have "\<not> isl (book_sort_key m ?meta bid)" by simp
    then obtain bk where bk: "?meta bid = Some bk"
      by (cases "?meta bid") (simp_all add: book_sort_key_def)
    with book_meta_id [OF bk] assms(1) show ?thesis by (simp add: book_sort_key_def)
  qed
  from assms(3,4) have "ord ! i \<in> set ord" "ord ! j \<in> set ord" by simp_all
  with perm have ini: "ord ! i \<in> set base" and inj: "ord ! j \<in> set base" by simp_all
  from key [OF ini] obtain bi where bi: "?meta (ord ! i) = Some bi"
    and ki: "?K (ord ! i) = (if author_id bi \<in> set (author_ids m) then (0, - year bi)
                             else (2, ord ! i))" by blast
  from key [OF inj] obtain bj where bj: "?meta (ord ! j) = Some bj"
    and kj: "?K (ord ! j) = (if author_id bj \<in> set (author_ids m) then (0, - year bj)
                             else (2, ord ! j))" by blast
  from ordered_ids_sorted(1) [OF assms(2)] assms(3,4)
  have "?K (ord ! i) \<le> ?K (ord ! j)"
    by (simp add: sorted_iff_nth_mono)
  then have pair: "(author_id bj \<in> set (author_ids m)
                \<longrightarrow> author_id bi \<in> set (author_ids m) \<and> year bj \<le> year bi)
          \<and> (author_id bi \<notin> set (author_ids m)
                \<longrightarrow> author_id bj \<notin> set (author_ids m) \<and> ord ! i \<le> ord ! j)"
    unfolding ki kj by (simp split: if_splits)
  have ties: "filter (\<lambda>bid. case ?meta bid of None \<Rightarrow> False
                              | Some bk \<Rightarrow> author_id bk \<in> set (author_ids m) \<and> year bk = y) ord
            = filter (\<lambda>bid. case ?meta bid of None \<Rightarrow> False
                              | Some bk \<Rightarrow> author_id bk \<in> set (author_ids m) \<and> year bk = y) base"
    (is "filter ?P ord = filter ?P base") for y
  proof -
    have same: "?P bid \<longleftrightarrow> ?K bid = (0, - y)" if "bid \<in> set base" for bid
    proof -
      from key [OF that] obtain bk where "?meta bid = Some bk"
        and "?K bid = (if author_id bk \<in> set (author_ids m) then (0, - year bk)
                       else (2, bid))" by blast
      then show ?thesis by (simp split: if_splits)
    qed
    have "filter ?P ord = filter (\<lambda>bid. ?K bid = (0, - y)) ord"
      by (rule filter_cong [OF refl]) (use same perm in simp)
    also have "\<dots> = filter (\<lambda>bid. ?K bid = (0, - y)) base"
      unfolding srt by (rule sort_key_stable)
    also have "\<dots> = filter ?P base"
      by (rule filter_cong [OF refl]) (use same in simp)
    finally show ?thesis .
  qed
  from perm len bi bj pair ties show ?thesis by blast
qed

theorem author_first_order_witness:
  "priority (PriorityRedistributionManager_init True (Some ''author_first'') (Some [7]))
     = ''author_first''
   \<and> candidate_book_ids four_books 2 = [1, 2, 3, 4]
   \<and> ordered_ids (PriorityRedistributionManager_init True (Some ''author_first'') (Some [7]))
        four_books [1, 2, 3, 4] = Inr [3, 4, 1, 2]
   \<and> (2 :: nat) < 3 \<and> (3 :: nat) < length [3, 4, 1, 2 :: int]
   \<and> (\<exists>bi bj. book_meta four_books [1, 2, 3, 4] 1 = Some bi
         \<and> book_meta four_books [1, 2, 3, 4] 2 = Some bj
         \<and> author_id bi \<notin> set [7] \<and> author_id bj \<notin> set [7] \<and> (1 :: int) \<le> 2)
   \<and> filter (\<lambda>bid. case book_meta four_books [1, 2, 3, 4] bid of None \<Rightarrow> False
                     | Some bk \<Rightarrow> author_id bk \<in> set [7] \<and> year bk = 1990) [3, 4, 1, 2]
       = [3, 4]"
proof -
  let ?m = "PriorityRedistributionManager_init True (Some ''author_first'') (Some [7])"
  let ?P = "\<lambda>bid. case book_meta four_books [1, 2, 3, 4] bid of None \<Rightarrow> False
                   | Some bk \<Rightarrow> author_id bk \<in> set (author_ids ?m) \<and> year bk = 1990"
  have p: "priority ?m = ''author_first''" and a: "author_ids ?m = [7]"
    by (simp_all add: PriorityRedistributionManager_init_def)
  have c: "candidate_book_ids four_books 2 = [1, 2, 3, 4]" by code_simp
  have o: "ordered_ids ?m four_books [1, 2, 3, 4] = Inr [3, 4, 1, 2]" by code_simp
  have ij: "(2 :: nat) < 3" "(3 :: nat) < length [3, 4, 1, 2 :: int]" by simp_all
  from author_first_order [OF p o ij] obtain bi bj where
    m: "book_meta four_books [1, 2, 3, 4] ([3, 4, 1, 2] ! 2) = Some bi"
       "book_meta four_books [1, 2, 3, 4] ([3, 4, 1, 2] ! 3) = Some bj"
    and x: "author_id bi \<notin> set (author_ids ?m)
            \<longrightarrow> author_id bj \<notin> set (author_ids ?m)
                \<and> [3, 4, 1, 2 :: int] ! 2 \<le> [3, 4, 1, 2] ! 3"
    and t: "\<forall>y. filter (\<lambda>bid. case book_meta four_books [1, 2, 3, 4] bid of None \<Rightarrow> False
                   | Some bk \<Rightarrow> author_id bk \<in> set (author_ids ?m) \<and> year bk = y) [3, 4, 1, 2]
              = filter (\<lambda>bid. case book_meta four_books [1, 2, 3, 4] bid of None \<Rightarrow> False
                   | Some bk \<Rightarrow> author_id bk \<in> set (author_ids ?m) \<and> year bk = y) [1, 2, 3, 4]"
    by (elim exE conjE) (rule that; assumption)
  from m have m': "book_meta four_books [1, 2, 3, 4] 1 = Some bi"
    "book_meta four_books [1, 2, 3, 4] 2 = Some bj" by simp_all
  have "book_meta four_books [1, 2, 3, 4] 1 = Some \<lparr>bk_id = 1, year = 2000, author_id = 9\<rparr>"
    by code_simp
  with m'(1) have "author_id bi \<notin> set (author_ids ?m)" unfolding a by auto
  with x have "author_id bj \<notin> set (author_ids ?m)" by blast
  with \<open>author_id bi \<notin> set (author_ids ?m)\<close> m' have e:
    "\<exists>bi bj. book_meta four_books [1, 2, 3, 4] 1 = Some bi
         \<and> book_meta four_books [1, 2, 3, 4] 2 = Some bj
         \<and> author_id bi \<notin> set [7] \<and> author_id bj \<notin> set [7] \<and> (1 :: int) \<le> 2"
    unfolding a by auto
  from t have "filter ?P [3, 4, 1, 2] = filter ?P [1, 2, 3, 4]" by (elim allE)
  also have "filter ?P [1, 2, 3, 4] = [3, 4]" unfolding a by code_simp
  finally have f: "filter (\<lambda>bid. case book_meta four_books [1, 2, 3, 4] bid of None \<Rightarrow> False
                     | Some bk \<Rightarrow> author_id bk \<in> set [7] \<and> year bk = 1990) [3, 4, 1, 2]
       = [3, 4]" unfolding a .
  from p c o ij e f show ?thesis by (intro conjI)
qed

theorem author_first_rest_counterexample:
  "candidate_book_ids three_books 2 = [1, 2, 3]
   \<and> map (\<lambda>b. (bk_id b, year b, author_id b)) (books three_books)
       = [(1, 2000, 9), (2, 2020, 9), (3, 1990, 7)]
   \<and> ordered_ids (PriorityRedistributionManager_init True (Some ''author_first'') (Some [7]))
        three_books [1, 2, 3] = Inr [3, 1, 2]
   \<and> rebalance ascending_difference
        (PriorityRedistributionManager_init True (Some ''author_first'') (Some [7])) three_books
      = Inr (\<lparr>moves = [mk_move 3 1 2, mk_move 1 1 2, mk_move 2 1 2], total_moves = 3,
               books_considered = 3\<rparr>,
             (PriorityRedistributionManager_init True (Some ''author_first'') (Some [7]))
               \<lparr>free_capacity := [(1, 4), (2, 7)]\<rparr>, three_books)"
  by code_simp







end
